theory Spec2Isabelle
  imports Main "HOL-Library.Sublist"
begin

section \<open>texit: adding TeX syntax to marked lines\<close>

text \<open>
  A shallow embedding of \<^verbatim>\<open>texit.py\<close>. Python strings are modelled as \<open>string\<close>,
  one \<open>char\<close> per code point, which covers the code points below 256. Exceptions are
  values of the type \<open>error\<close>; a function that can raise returns \<open>error + 'a\<close>.
\<close>

subsection \<open>Characters and exceptions\<close>

definition newline :: char where
  "newline = CHR 0x0A"

definition backslash :: char where
  "backslash = CHR 0x5C"

datatype error = AttributeError | KeyError | TypeError | EOFError | FileNotFoundError

subsection \<open>The regular expressions of the standard library, as far as the program uses them\<close>

text \<open>
  The program calls \<^verbatim>\<open>re.match\<close> on two patterns. They are built from literals, the
  anchors \<^verbatim>\<open>^\<close> and \<^verbatim>\<open>$\<close>, greedy and lazy repetition of a character class, the
  greedy option \<^verbatim>\<open>?\<close>, alternation, sequence, named groups and one unnamed group
  (whose capture the program never reads).
\<close>

datatype re =
    Lit string
  | Bol
  | Eol
  | Star "char \<Rightarrow> bool"
  | StarLazy "char \<Rightarrow> bool"
  | Opt re
  | Alt re re
  | Seq re re
  | Group string re
  | Paren re

type_synonym groups = "string \<rightharpoonup> string"

definition run_len :: "(char \<Rightarrow> bool) \<Rightarrow> string \<Rightarrow> nat \<Rightarrow> nat" where
  "run_len P s i = length (takeWhile P (drop i s))"

text \<open>
  A greedy repetition that can take up to \<open>n\<close> characters from position \<open>i\<close> tries the
  longest run first and gives characters back one at a time; a lazy one tries the
  empty run first and takes one more character at a time.
\<close>

fun greedy :: "(nat \<Rightarrow> 'a option) \<Rightarrow> nat \<Rightarrow> nat \<Rightarrow> 'a option" where
  "greedy k i 0 = k i"
| "greedy k i (Suc n) = (case k (i + Suc n) of Some r \<Rightarrow> Some r | None \<Rightarrow> greedy k i n)"

fun lazy :: "(nat \<Rightarrow> 'a option) \<Rightarrow> nat \<Rightarrow> nat \<Rightarrow> 'a option" where
  "lazy k i 0 = k i"
| "lazy k i (Suc n) = (case k i of Some r \<Rightarrow> Some r | None \<Rightarrow> lazy k (Suc i) n)"

text \<open>
  The backtracking matcher: \<open>matches r s i g k\<close> matches \<open>r\<close> in \<open>s\<close> from position \<open>i\<close>
  with the groups \<open>g\<close> captured so far, and hands the end position and the groups to the
  continuation \<open>k\<close>, which matches the rest of the pattern. \<open>None\<close> is failure, after
  which the caller tries its next alternative. \<^verbatim>\<open>$\<close> matches at the end of the string
  and just before a newline that ends it.
\<close>

fun matches ::
  "re \<Rightarrow> string \<Rightarrow> nat \<Rightarrow> groups \<Rightarrow> (nat \<Rightarrow> groups \<Rightarrow> groups option) \<Rightarrow> groups option" where
  "matches (Lit cs) s i g k =
     (if take (length cs) (drop i s) = cs then k (i + length cs) g else None)"
| "matches Bol s i g k = (if i = 0 then k i g else None)"
| "matches Eol s i g k =
     (if i = length s \<or> (Suc i = length s \<and> s ! i = newline) then k i g else None)"
| "matches (Star P) s i g k = greedy (\<lambda>j. k j g) i (run_len P s i)"
| "matches (StarLazy P) s i g k = lazy (\<lambda>j. k j g) i (run_len P s i)"
| "matches (Opt r) s i g k =
     (case matches r s i g k of Some x \<Rightarrow> Some x | None \<Rightarrow> k i g)"
| "matches (Alt r1 r2) s i g k =
     (case matches r1 s i g k of Some x \<Rightarrow> Some x | None \<Rightarrow> matches r2 s i g k)"
| "matches (Seq r1 r2) s i g k = matches r1 s i g (\<lambda>j g'. matches r2 s j g' k)"
| "matches (Group n r) s i g k =
     matches r s i g (\<lambda>j g'. k j (g'(n \<mapsto> take (j - i) (drop i s))))"
| "matches (Paren r) s i g k = matches r s i g k"

text \<open>
  \<^verbatim>\<open>re.match(pattern, string)\<close>: a match anchored at position 0 that need not reach the
  end of the string. The result is \<open>None\<close> for Python's \<^verbatim>\<open>None\<close>, and otherwise the
  groups of the match object: \<open>g name\<close> is \<^verbatim>\<open>match.group(name)\<close>, \<open>None\<close> for a group
  that took no part in the match.
\<close>

definition re_match :: "re \<Rightarrow> string \<Rightarrow> groups option" where
  "re_match r s = matches r s 0 Map.empty (\<lambda>j g. Some g)"

subsection \<open>The constant tables\<close>

text \<open>
  The dictionaries \<^verbatim>\<open>ctt_type\<close>, \<^verbatim>\<open>size\<close>, \<^verbatim>\<open>brace\<close> and \<^verbatim>\<open>common\<close> are only read
  with literal keys, so each entry is a constant named after its dictionary and key.
  \<^verbatim>\<open>mapping\<close> is read with a computed key and its key order builds the pattern, so it
  is an association list in the order of the source.
\<close>

definition ctt_type_text :: string where
  "ctt_type_text = backslash # ''text''"

definition size_large :: string where
  "size_large = backslash # ''large''"

definition brace_open :: string where
  "brace_open = ''{''"

definition brace_close :: string where
  "brace_close = ''}''"

definition common_tex_dollars :: string where
  "common_tex_dollars = ''$$''"

definition common_large_txt :: string where
  "common_large_txt = size_large @ ctt_type_text @ brace_open"

definition common_end_slash :: string where
  "common_end_slash = [backslash, backslash]"

definition needs_2nd_close_brace :: "string set" where
  "needs_2nd_close_brace = {''-und''}"

definition mapping :: "(string \<times> string) list" where
  "mapping =
    [(''-bp'', (backslash # ''bullet'') @ common_large_txt @ '' ''),
     (''-bf'', size_large @ (backslash # ''textbf{'')),
     (''-br'', ''$$$$''),
     (''-bbr'', ''$$ $$''),
     (''-und'', (backslash # ''underline{'') @ common_large_txt)]"

text \<open>\<^verbatim>\<open>d[k]\<close> on a dictionary with string keys; the key may be Python's \<^verbatim>\<open>None\<close>.\<close>

definition getitem :: "(string \<times> string) list \<Rightarrow> string option \<Rightarrow> error + string" where
  "getitem d k =
     (case k of
        None \<Rightarrow> Inl KeyError
      | Some k' \<Rightarrow> (case map_of d k' of None \<Rightarrow> Inl KeyError | Some v \<Rightarrow> Inr v))"

subsection \<open>The pattern of a line\<close>

text \<open>
  \<^verbatim>\<open>starts\<close> joins \<^verbatim>\<open>'^' + key + '|'\<close> over the keys of \<^verbatim>\<open>mapping\<close>: one anchored
  alternative per key, in key order, and the empty alternative after the last bar.
\<close>

definition starts :: re where
  "starts = foldr (\<lambda>x r. Alt (Seq Bol (Lit x)) r) (map fst mapping) (Lit [])"

definition possible_starts :: re where
  "possible_starts = Opt (Group ''marker'' starts)"

definition rest_of_string :: re where
  "rest_of_string =
     Seq (Opt (Paren (Star (\<lambda>c. c = CHR '' ''))))
       (Seq (Opt (Group ''text'' (Star (\<lambda>c. c \<noteq> newline))))
         (Opt (Group ''nln'' (Lit [newline]))))"

definition PATTERN :: re where
  "PATTERN = Seq possible_starts rest_of_string"

subsection \<open>The line transformer\<close>

text \<open>
  \<^verbatim>\<open>''.join(modified)\<close>: an element that is \<^verbatim>\<open>None\<close> raises a TypeError. Truthiness
  of a group value: \<^verbatim>\<open>None\<close> and the empty string are false.
\<close>

fun join :: "string option list \<Rightarrow> error + string" where
  "join [] = Inr []"
| "join (None # xs) = Inl TypeError"
| "join (Some x # xs) = (case join xs of Inl e \<Rightarrow> Inl e | Inr r \<Rightarrow> Inr (x @ r))"

fun truthy :: "string option \<Rightarrow> bool" where
  "truthy None = False"
| "truthy (Some t) = (t \<noteq> [])"

text \<open>
  The first \<^verbatim>\<open>if\<close> of the source stands alone; the chain that starts at
  \<^verbatim>\<open>if marker == '-br'\<close> runs after it on the same list \<^verbatim>\<open>modified\<close>.
\<close>

definition add_tex_syntax :: "string \<Rightarrow> error + string" where
  "add_tex_syntax line =
     (case re_match PATTERN line of
        None \<Rightarrow> Inl AttributeError
      | Some g \<Rightarrow>
          (let marker = g ''marker'';
               text = g ''text'';
               modified =
                 (if marker = None
                  then [Some common_large_txt, text, Some common_end_slash]
                  else [])
           in
             if marker = Some ''-br'' then
               (case getitem mapping (Some ''-br'') of
                  Inl e \<Rightarrow> Inl e
                | Inr v \<Rightarrow> join (modified @ [Some v]))
             else if marker = Some ''-bbr'' then
               (case getitem mapping (Some ''-bbr'') of
                  Inl e \<Rightarrow> Inl e
                | Inr v \<Rightarrow> join (modified @ [Some v]))
             else if marker = Some [] \<and> truthy text then
               join (modified @
                 [Some common_large_txt, text, Some brace_close, Some common_end_slash])
             else if marker = Some [] \<and> \<not> truthy text then
               (case getitem mapping (Some ''-br'') of
                  Inl e \<Rightarrow> Inl e
                | Inr v \<Rightarrow> join (modified @ [Some v]))
             else
               (case getitem mapping marker of
                  Inl e \<Rightarrow> Inl e
                | Inr v \<Rightarrow>
                    join (modified @ [Some v, text, Some brace_close] @
                      (if marker \<in> Some ` needs_2nd_close_brace
                       then [Some brace_close]
                       else [Some common_end_slash])))))"

subsection \<open>Reading the input line by line\<close>

text \<open>
  An open text file is modelled by the text that is still to be read (after the
  decoding and newline translation of Python's text layer), and the output file by the
  text written so far. \<^verbatim>\<open>readline\<close> returns the text up to and including the next
  newline, or all that is left when there is none, and the empty string at the end of
  the file.
\<close>

definition readline :: "string \<Rightarrow> string \<times> string" where
  "readline f =
     (case dropWhile (\<lambda>c. c \<noteq> newline) f of
        [] \<Rightarrow> (f, [])
      | c # rest \<Rightarrow> (takeWhile (\<lambda>c. c \<noteq> newline) f @ [c], rest))"

lemma readline_shorter: "readline f = (line, f') \<Longrightarrow> line \<noteq> [] \<Longrightarrow> length f' < length f"
proof -
  assume r: "readline f = (line, f')" and ne: "line \<noteq> []"
  have le: "length (dropWhile (\<lambda>c. c \<noteq> newline) f) \<le> length f"
    by (rule length_dropWhile_le)
  show ?thesis
  proof (cases "dropWhile (\<lambda>c. c \<noteq> newline) f")
    case Nil
    then have "readline f = (f, [])" by (simp only: readline_def list.case)
    then show ?thesis using r ne by simp
  next
    case (Cons c rest)
    then have "readline f = (takeWhile (\<lambda>c. c \<noteq> newline) f @ [c], rest)"
      by (simp only: readline_def list.case)
    then show ?thesis using r le Cons by simp
  qed
qed

text \<open>
  The loop of \<^verbatim>\<open>process_files\<close>. The result is the exception that stopped the loop,
  if any, and the text of the output file.
\<close>

function process_files :: "string \<Rightarrow> string \<Rightarrow> error option \<times> string" where
  "process_files infile outfile =
     (case readline infile of
        (line, infile') \<Rightarrow>
          if line = [] then (None, outfile)
          else (case add_tex_syntax line of
                  Inl e \<Rightarrow> (Some e, outfile)
                | Inr out \<Rightarrow> process_files infile' (outfile @ out @ [newline])))"
  by pat_completeness auto
termination
  by (relation "measure (\<lambda>(infile, outfile). length infile)")
    (auto dest: readline_shorter [OF sym])

declare process_files.simps [simp del]

subsection \<open>The driver\<close>

text \<open>
  Word characters (\<^verbatim>\<open>\w\<close> on a Python string) and \<^verbatim>\<open>str.lower\<close>, on the code points
  below 256.
\<close>

definition is_word :: "char \<Rightarrow> bool" where
  "is_word c =
     (let n = (of_char c :: nat) in
        (0x30 \<le> n \<and> n \<le> 0x39) \<or> (0x41 \<le> n \<and> n \<le> 0x5A) \<or> n = 0x5F \<or>
        (0x61 \<le> n \<and> n \<le> 0x7A) \<or>
        n = 0xAA \<or> n = 0xB2 \<or> n = 0xB3 \<or> n = 0xB5 \<or> n = 0xB9 \<or> n = 0xBA \<or>
        n = 0xBC \<or> n = 0xBD \<or> n = 0xBE \<or>
        (0xC0 \<le> n \<and> n \<le> 0xD6) \<or> (0xD8 \<le> n \<and> n \<le> 0xF6) \<or> 0xF8 \<le> n)"

definition lower_char :: "char \<Rightarrow> char" where
  "lower_char c =
     (let n = (of_char c :: nat) in
        if (0x41 \<le> n \<and> n \<le> 0x5A) \<or> (0xC0 \<le> n \<and> n \<le> 0xD6) \<or> (0xD8 \<le> n \<and> n \<le> 0xDE)
        then char_of (n + 0x20) else c)"

definition lower :: "string \<Rightarrow> string" where
  "lower s = map lower_char s"

text \<open>\<^verbatim>\<open>x in y\<close> on two strings: \<open>x\<close> occurs in \<open>y\<close> as a substring.\<close>

fun occurs_in :: "string \<Rightarrow> string \<Rightarrow> bool" where
  "occurs_in x [] = (x = [])"
| "occurs_in x (c # cs) = (prefix x (c # cs) \<or> occurs_in x cs)"

definition infile_pattern :: re where
  "infile_pattern =
     Seq Bol
       (Seq (Opt (Group ''origin'' (StarLazy (\<lambda>c. c \<noteq> newline))))
         (Seq (Group ''name'' (Star (\<lambda>c. c = CHR ''-'' \<or> is_word c \<or> c = CHR ''.'')))
           (Seq (Group ''ext'' (Seq (Lit ''.'') (Star is_word))) Eol)))"

text \<open>
  The world of the driver: the files by path, the lines that the user will type, and
  what has been printed. The summary block is recorded by its three values.
\<close>

datatype printed = Print string | Prompt string | Summary string string string

record world =
  files :: "string \<rightharpoonup> string"
  stdin :: "string list"
  stdout :: "printed list"

datatype status = Returned | Exit_code nat | Exit_message string | Raised error

definition usage :: string where
  "usage = ''Usage: python3 texit.py '' @ [CHR 0x22] @ ''<filepath>'' @ [CHR 0x22] @ ''|filename''"

definition file_nonexistent :: "string \<Rightarrow> string" where
  "file_nonexistent infile_name = ''`'' @ infile_name @ ''` does not exist.''"

definition show_error :: "string \<Rightarrow> string \<Rightarrow> error + string" where
  "show_error infile_name message_type =
     getitem [(''usage'', usage), (''file_nonexistent'', file_nonexistent infile_name)]
       (Some message_type)"

text \<open>
  The output path (lines 74 to 80 of the source): the groups \<^verbatim>\<open>origin\<close> and
  \<^verbatim>\<open>name\<close> of the match, and the suffix. The result is the output file's name and
  its path.
\<close>

definition derive_outfile :: "string \<Rightarrow> error + (string \<times> string)" where
  "derive_outfile infile_name =
     (case re_match infile_pattern infile_name of
        None \<Rightarrow> Inl AttributeError
      | Some g \<Rightarrow>
          (case g ''name'' of
             None \<Rightarrow> Inl TypeError
           | Some n \<Rightarrow>
               (case g ''origin'' of
                  None \<Rightarrow> Inl TypeError
                | Some outfile_location \<Rightarrow>
                    Inr (n @ ''_texit_out.txt'', outfile_location @ n @ ''_texit_out.txt''))))"

text \<open>
  The prompt loop (lines 89 to 99): \<open>None\<close> is the \<^verbatim>\<open>break\<close>, after which the driver
  goes on to write; a status is the way the program stops inside the loop. \<^verbatim>\<open>input\<close>
  at the end of the standard input raises EOFError.
\<close>

definition overwrite_question :: string where
  "overwrite_question = ''Do you want to overwrite it? (y/n): ''"

definition overwrite_help :: string where
  "overwrite_help =
     ''Enter a '' @ [CHR 0x27] @ ''y'' @ [CHR 0x27] @ '' for yes, or '' @
     [CHR 0x27] @ ''n'' @ [CHR 0x27] @ '' for no.''"

fun overwrite_loop :: "string list \<Rightarrow> printed list \<Rightarrow> status option \<times> string list \<times> printed list" where
  "overwrite_loop [] out = (Some (Raised EOFError), [], out @ [Prompt overwrite_question])"
| "overwrite_loop (overwrite_permission # rest) out =
     (if occurs_in (lower overwrite_permission) ''n''
      then (Some (Exit_message ''Nothing has changed, goodbye!''), rest,
            out @ [Prompt overwrite_question])
      else if occurs_in (lower overwrite_permission) ''y''
      then (None, rest, out @ [Prompt overwrite_question])
      else overwrite_loop rest (out @ [Prompt overwrite_question, Print overwrite_help]))"

text \<open>
  Writing (lines 101 to 109): opening the output file for writing creates or empties
  it; then the input file is opened and the delimiter, the transformed lines and the
  delimiter again are written.
\<close>

definition write_output :: "string \<Rightarrow> string \<Rightarrow> world \<Rightarrow> error option \<times> world" where
  "write_output infile_name outfile_path w =
     (let fs = (files w)(outfile_path \<mapsto> []) in
        case fs infile_name of
          None \<Rightarrow> (Some FileNotFoundError, w\<lparr>files := fs\<rparr>)
        | Some infile \<Rightarrow>
            (case process_files infile (common_tex_dollars @ [newline]) of
               (Some e, outfile) \<Rightarrow> (Some e, w\<lparr>files := fs(outfile_path \<mapsto> outfile)\<rparr>)
             | (None, outfile) \<Rightarrow>
                 (None, w\<lparr>files := fs(outfile_path \<mapsto>
                            outfile @ common_tex_dollars @ [newline])\<rparr>)))"

definition main :: "string list \<Rightarrow> world \<Rightarrow> status \<times> world" where
  "main argv w =
     (if length argv \<noteq> 2
      then (Exit_code 1, w\<lparr>stdout := stdout w @ [Print usage]\<rparr>)
      else
        let infile_name = argv ! 1 in
        if infile_name \<notin> dom (files w)
        then (Exit_code 2,
              w\<lparr>stdout := stdout w @
                   [Print (file_nonexistent infile_name), Print [], Print usage]\<rparr>)
        else
          (case derive_outfile infile_name of
             Inl e \<Rightarrow> (Raised e, w)
           | Inr (outfile_name, outfile_path) \<Rightarrow>
               (let asked =
                      (if outfile_path \<in> dom (files w)
                       then (case overwrite_loop (stdin w)
                                    (stdout w @
                                      [Print (''The output file `'' @ outfile_path @
                                              ''` already exists'')]) of
                               (stop, rest, out) \<Rightarrow>
                                 (stop, True, w\<lparr>stdin := rest, stdout := out\<rparr>))
                       else (None, False, w))
                in
                  case asked of
                    (Some stop, file_overwritten, w1) \<Rightarrow> (stop, w1)
                  | (None, file_overwritten, w1) \<Rightarrow>
                      (case write_output infile_name outfile_path w1 of
                         (Some e, w2) \<Rightarrow> (Raised e, w2)
                       | (None, w2) \<Rightarrow>
                           (Returned,
                            w2\<lparr>stdout := stdout w2 @
                                  (if file_overwritten then [Print ''Overwrite successful!'']
                                   else []) @
                                  [Summary infile_name outfile_name outfile_path]\<rparr>)))))"

section \<open>Notions used to state the properties\<close>

text \<open>
  The two groups that \<^verbatim>\<open>add_tex_syntax\<close> reads from its match, and a description of
  them without the matcher: the marker is the first key of \<^verbatim>\<open>mapping\<close> that the line
  starts with (the empty string when there is none), and the text is what follows the
  marker after its leading spaces, up to the first newline.
\<close>

definition marker_of :: "string \<Rightarrow> string option" where
  "marker_of line = (case re_match PATTERN line of None \<Rightarrow> None | Some g \<Rightarrow> g ''marker'')"

definition text_of :: "string \<Rightarrow> string option" where
  "text_of line = (case re_match PATTERN line of None \<Rightarrow> None | Some g \<Rightarrow> g ''text'')"

definition first_prefix :: "string list \<Rightarrow> string \<Rightarrow> string" where
  "first_prefix ks s = (case find (\<lambda>x. prefix x s) ks of Some x \<Rightarrow> x | None \<Rightarrow> [])"

definition strip_text :: "nat \<Rightarrow> string \<Rightarrow> string" where
  "strip_text j s = takeWhile (\<lambda>c. c \<noteq> newline) (dropWhile (\<lambda>c. c = CHR '' '') (drop j s))"

text \<open>
  The lines of a text: every newline ends a line, and what follows the last newline is
  a line when it is not empty. \<open>written_text\<close> is the text of an output file whose
  transformed lines are \<open>outs\<close>.
\<close>

fun lines_of :: "string \<Rightarrow> string list" where
  "lines_of [] = []"
| "lines_of (c # cs) =
     (if c = newline then [] # lines_of cs
      else (case lines_of cs of [] \<Rightarrow> [[c]] | l # ls \<Rightarrow> (c # l) # ls))"

definition written_text :: "string list \<Rightarrow> string" where
  "written_text outs =
     common_tex_dollars @ [newline] @ concat (map (\<lambda>out. out @ [newline]) outs) @
     common_tex_dollars @ [newline]"

text \<open>
  What a pattern can match, without the order in which the matcher tries: \<open>sem r s i g j g'\<close>
  holds when \<open>r\<close> can match \<open>s\<close> from position \<open>i\<close> to position \<open>j\<close>, taking the
  groups from \<open>g\<close> to \<open>g'\<close>.
\<close>

inductive sem :: "re \<Rightarrow> string \<Rightarrow> nat \<Rightarrow> groups \<Rightarrow> nat \<Rightarrow> groups \<Rightarrow> bool" where
  sem_Lit: "take (length cs) (drop i s) = cs \<Longrightarrow> sem (Lit cs) s i g (i + length cs) g"
| sem_Bol: "sem Bol s 0 g 0 g"
| sem_Eol: "i = length s \<or> (Suc i = length s \<and> s ! i = newline) \<Longrightarrow> sem Eol s i g i g"
| sem_Star: "d \<le> run_len P s i \<Longrightarrow> sem (Star P) s i g (i + d) g"
| sem_StarLazy: "d \<le> run_len P s i \<Longrightarrow> sem (StarLazy P) s i g (i + d) g"
| sem_Opt: "sem r s i g j g' \<Longrightarrow> sem (Opt r) s i g j g'"
| sem_Skip: "sem (Opt r) s i g i g"
| sem_AltL: "sem r1 s i g j g' \<Longrightarrow> sem (Alt r1 r2) s i g j g'"
| sem_AltR: "sem r2 s i g j g' \<Longrightarrow> sem (Alt r1 r2) s i g j g'"
| sem_Seq: "sem r1 s i g j g' \<Longrightarrow> sem r2 s j g' l g'' \<Longrightarrow> sem (Seq r1 r2) s i g l g''"
| sem_Group: "sem r s i g j g' \<Longrightarrow> sem (Group n r) s i g j (g'(n \<mapsto> take (j - i) (drop i s)))"
| sem_Paren: "sem r s i g j g' \<Longrightarrow> sem (Paren r) s i g j g'"

inductive_cases sem_LitE: "sem (Lit cs) s i g j g'"
inductive_cases sem_BolE: "sem Bol s i g j g'"
inductive_cases sem_EolE: "sem Eol s i g j g'"
inductive_cases sem_StarE: "sem (Star P) s i g j g'"
inductive_cases sem_StarLazyE: "sem (StarLazy P) s i g j g'"
inductive_cases sem_OptE: "sem (Opt r) s i g j g'"
inductive_cases sem_SeqE: "sem (Seq r1 r2) s i g j g'"
inductive_cases sem_GroupE: "sem (Group n r) s i g j g'"

section \<open>What the pattern of a line captures\<close>

lemma greedy_longest: "k (i + n) = Some r \<Longrightarrow> greedy k i n = Some r"
  by (cases n) simp_all

lemma take_is_prefix: "take (length x) s = x \<longleftrightarrow> prefix x s"
  by (metis append_eq_conv_conj prefix_def)

lemma take_run_len: "take (run_len P s i) (drop i s) = takeWhile P (drop i s)"
  unfolding run_len_def by (rule takeWhile_eq_take [symmetric])

lemma drop_run_len: "drop (i + run_len P s i) s = dropWhile P (drop i s)"
  unfolding run_len_def by (simp add: dropWhile_eq_drop add.commute)

lemma nln_group:
  "\<exists>g'. matches (Opt (Group ''nln'' (Lit [newline]))) s j g (\<lambda>j g. Some g) = Some g'
        \<and> g' ''marker'' = g ''marker'' \<and> g' ''text'' = g ''text''"
  by simp

lemma text_group:
  "\<exists>g'. matches (Seq (Opt (Group ''text'' (Star P))) (Opt (Group ''nln'' (Lit [newline]))))
           s j g (\<lambda>j g. Some g) = Some g'
        \<and> g' ''marker'' = g ''marker'' \<and> g' ''text'' = Some (takeWhile P (drop j s))"
proof -
  let ?n = "run_len P s j"
  let ?g = "g(''text'' \<mapsto> take ?n (drop j s))"
  obtain g' where g':
    "matches (Opt (Group ''nln'' (Lit [newline]))) s (j + ?n) ?g (\<lambda>j g. Some g) = Some g'"
    "g' ''marker'' = ?g ''marker''" "g' ''text'' = ?g ''text''"
    using nln_group [of s "j + ?n" ?g] by blast
  have "greedy (\<lambda>ja. matches (Opt (Group ''nln'' (Lit [newline]))) s ja
            (g(''text'' \<mapsto> take (ja - j) (drop j s))) (\<lambda>j g. Some g)) j ?n = Some g'"
    by (rule greedy_longest) (use g'(1) in simp)
  then show ?thesis
    using g'(2,3) by (simp add: take_run_len)
qed

lemma rest_of_string_matches:
  "\<exists>g'. matches rest_of_string s j g (\<lambda>j g. Some g) = Some g'
        \<and> g' ''marker'' = g ''marker'' \<and> g' ''text'' = Some (strip_text j s)"
proof -
  let ?sp = "\<lambda>c. c = CHR '' ''"
  let ?rest = "Seq (Opt (Group ''text'' (Star (\<lambda>c. c \<noteq> newline))))
                 (Opt (Group ''nln'' (Lit [newline])))"
  let ?n = "run_len ?sp s j"
  obtain g' where g': "matches ?rest s (j + ?n) g (\<lambda>j g. Some g) = Some g'"
    "g' ''marker'' = g ''marker''"
    "g' ''text'' = Some (takeWhile (\<lambda>c. c \<noteq> newline) (drop (j + ?n) s))"
    using text_group [of "\<lambda>c. c \<noteq> newline" s "j + ?n" g] by blast
  have "greedy (\<lambda>ja. matches ?rest s ja g (\<lambda>j g. Some g)) j ?n = Some g'"
    by (rule greedy_longest) (rule g'(1))
  moreover have "matches rest_of_string s j g (\<lambda>j g. Some g)
      = (case greedy (\<lambda>ja. matches ?rest s ja g (\<lambda>j g. Some g)) j ?n of
           Some x \<Rightarrow> Some x | None \<Rightarrow> matches ?rest s j g (\<lambda>j g. Some g))"
    by (simp only: rest_of_string_def matches.simps)
  ultimately show ?thesis
    using g'(2,3) by (simp only: strip_text_def drop_run_len option.case) simp
qed

lemma alternatives_first:
  assumes "\<And>j g. K j g \<noteq> None"
  shows "matches (foldr (\<lambda>x r. Alt (Seq Bol (Lit x)) r) ks (Lit [])) s 0 g K
         = K (length (first_prefix ks s)) g"
proof (induction ks)
  case Nil
  show ?case by (simp add: first_prefix_def)
next
  case (Cons x ks)
  show ?case
  proof (cases "prefix x s")
    case True
    then have "take (length x) s = x" by (simp add: take_is_prefix)
    moreover obtain r where "K (length x) g = Some r" using assms [of "length x" g] by auto
    ultimately show ?thesis using True by (simp add: first_prefix_def)
  next
    case False
    then have "take (length x) s \<noteq> x" by (simp add: take_is_prefix)
    then show ?thesis using False Cons.IH by (simp add: first_prefix_def)
  qed
qed

lemma first_prefix_take: "take (length (first_prefix ks s)) s = first_prefix ks s"
proof (cases "find (\<lambda>x. prefix x s) ks")
  case None
  then show ?thesis by (simp add: first_prefix_def)
next
  case (Some x)
  then have "prefix x s" by (auto simp: find_Some_iff)
  then show ?thesis using Some by (simp add: first_prefix_def take_is_prefix)
qed

lemma PATTERN_matches:
  "\<exists>g. re_match PATTERN line = Some g
       \<and> g ''marker'' = Some (first_prefix (map fst mapping) line)
       \<and> g ''text'' = Some (strip_text (length (first_prefix (map fst mapping) line)) line)"
proof -
  let ?m = "first_prefix (map fst mapping) line"
  let ?K = "\<lambda>j g'. matches rest_of_string line j
              (g'(''marker'' \<mapsto> take (j - 0) (drop 0 line))) (\<lambda>j g. Some g)"
  have K: "\<And>j g. ?K j g \<noteq> None"
    using rest_of_string_matches by (metis option.distinct(1))
  have "matches starts line 0 Map.empty ?K = ?K (length ?m) Map.empty"
    unfolding starts_def by (rule alternatives_first) (rule K)
  moreover obtain g where g: "?K (length ?m) Map.empty = Some g"
    "g ''marker'' = (Map.empty(''marker'' \<mapsto> take (length ?m - 0) (drop 0 line))) ''marker''"
    "g ''text'' = Some (strip_text (length ?m) line)"
    using rest_of_string_matches
      [of line "length ?m" "Map.empty(''marker'' \<mapsto> take (length ?m - 0) (drop 0 line))"]
    by blast
  ultimately have "re_match PATTERN line = Some g"
    by (simp add: re_match_def PATTERN_def possible_starts_def)
  then show ?thesis using g(2,3) by (simp add: first_prefix_take)
qed

lemma marker_of_eq: "marker_of line = Some (first_prefix (map fst mapping) line)"
  using PATTERN_matches [of line] by (auto simp: marker_of_def)

lemma text_of_eq:
  "text_of line = Some (strip_text (length (first_prefix (map fst mapping) line)) line)"
  using PATTERN_matches [of line] by (auto simp: text_of_def)

section \<open>The line transformer, branch by branch\<close>

lemma first_prefix_keys:
  "first_prefix (map fst mapping) line \<in> {''-bp'', ''-bf'', ''-br'', ''-bbr'', ''-und'', []}"
  by (simp add: first_prefix_def mapping_def)

lemma getitem_br: "getitem mapping (Some ''-br'') = Inr ''$$$$''"
  by (simp add: getitem_def mapping_def)

lemma getitem_bbr: "getitem mapping (Some ''-bbr'') = Inr ''$$ $$''"
  by (simp add: getitem_def mapping_def)

lemma add_tex_syntax_groups:
  assumes "marker_of line = Some mk" and "text_of line = Some t"
  shows "add_tex_syntax line =
     (if mk = ''-br'' then Inr ''$$$$''
      else if mk = ''-bbr'' then Inr ''$$ $$''
      else if mk = [] then
        (if t \<noteq> [] then Inr (common_large_txt @ t @ brace_close @ common_end_slash)
         else Inr ''$$$$'')
      else (case map_of mapping mk of
              None \<Rightarrow> Inl KeyError
            | Some v \<Rightarrow>
                Inr (v @ t @ brace_close @
                  (if mk \<in> needs_2nd_close_brace then brace_close else common_end_slash))))"
proof -
  obtain g where g: "re_match PATTERN line = Some g" "g ''marker'' = Some mk" "g ''text'' = Some t"
    using assms by (auto simp: marker_of_def text_of_def split: option.splits)
  show ?thesis
    unfolding add_tex_syntax_def
    by (simp add: g Let_def getitem_br getitem_bbr)
      (auto simp: getitem_def split: option.splits)
qed

lemma first_prefix_none:
  assumes "\<forall>k \<in> set ks. \<not> prefix k s"
  shows "first_prefix ks s = []"
proof -
  have "find (\<lambda>x. prefix x s) ks = None"
    using assms by (simp add: find_None_iff)
  then show ?thesis by (simp add: first_prefix_def)
qed

lemma first_prefix_key:
  "k \<in> set (map fst mapping) \<Longrightarrow> first_prefix (map fst mapping) (k @ rest) = k"
  by (auto simp: first_prefix_def mapping_def)

text \<open>
  Claim C1, as amended. When the match captures the empty marker (no key of
  \<^verbatim>\<open>mapping\<close> starts the line) and a non-empty text, \<^verbatim>\<open>add_tex_syntax\<close> returns the
  large-text opening fragment, the text, one closing brace and the line-continuation
  token. The branch of the source without the closing brace is the one for a marker
  that is \<^verbatim>\<open>None\<close>, which no line reaches.
\<close>

theorem unmarked_text_gets_closing_brace:
  assumes "marker_of line = Some []" and "text_of line = Some t" and "t \<noteq> []"
  shows "add_tex_syntax line = Inr (common_large_txt @ t @ brace_close @ common_end_slash)"
  using add_tex_syntax_groups [OF assms(1,2)] assms(3) by simp

text \<open>
  The amended claim C1 at the line \<^verbatim>\<open>hello\<close>.
\<close>

theorem unmarked_text_gets_closing_brace_witness:
  "marker_of ''hello'' = Some [] \<and> text_of ''hello'' = Some ''hello'' \<and>
   add_tex_syntax ''hello'' = Inr (common_large_txt @ ''hello'' @ brace_close @ common_end_slash)"
proof -
  have m: "marker_of ''hello'' = Some []"
    by (simp add: marker_of_eq first_prefix_def mapping_def)
  have t: "text_of ''hello'' = Some ''hello''"
    by (simp add: text_of_eq first_prefix_def mapping_def strip_text_def newline_def)
  show ?thesis
    using m t unmarked_text_gets_closing_brace [OF m t] by simp
qed

text \<open>
  Claim C1 as the specification states it fails at the line \<^verbatim>\<open>hello\<close>: no key is
  recognized, the text is \<^verbatim>\<open>hello\<close>, and the result is not the opening fragment, the
  text and the continuation token alone.
\<close>

theorem hello_without_brace_counterexample:
  "marker_of ''hello'' = Some [] \<and> text_of ''hello'' = Some ''hello'' \<and>
   add_tex_syntax ''hello'' \<noteq> Inr (common_large_txt @ ''hello'' @ common_end_slash)"
proof -
  have m: "marker_of ''hello'' = Some []"
    by (simp add: marker_of_eq first_prefix_def mapping_def)
  have t: "text_of ''hello'' = Some ''hello''"
    by (simp add: text_of_eq first_prefix_def mapping_def strip_text_def newline_def)
  show ?thesis
    using m t add_tex_syntax_groups [OF m t] by (simp add: brace_close_def)
qed

text \<open>
  Claim C2, as amended. On the empty string the match captures the empty marker and
  the empty text, and \<^verbatim>\<open>add_tex_syntax\<close> returns the expansion of \<^verbatim>\<open>-br\<close>.
\<close>

theorem empty_line_is_break: "add_tex_syntax [] = Inr ''$$$$''"
proof -
  have m: "marker_of [] = Some []"
    by (simp add: marker_of_eq first_prefix_def mapping_def)
  have t: "text_of [] = Some []"
    by (simp add: text_of_eq first_prefix_def mapping_def strip_text_def)
  show ?thesis
    using add_tex_syntax_groups [OF m t] by simp
qed

text \<open>
  Claim C2 as the specification states it fails: the result on the empty string is not
  the opening fragment followed by the continuation token.
\<close>

theorem empty_line_counterexample:
  "add_tex_syntax [] \<noteq> Inr (common_large_txt @ [] @ common_end_slash)"
proof -
  have m: "marker_of [] = Some []"
    by (simp add: marker_of_eq first_prefix_def mapping_def)
  have t: "text_of [] = Some []"
    by (simp add: text_of_eq first_prefix_def mapping_def strip_text_def)
  show ?thesis
    using add_tex_syntax_groups [OF m t]
    by (simp add: common_large_txt_def size_large_def backslash_def)
qed

lemma add_tex_syntax_returns: "\<exists>out. add_tex_syntax line = Inr out"
proof -
  let ?mk = "first_prefix (map fst mapping) line"
  have "?mk \<in> {''-bp'', ''-bf'', ''-br'', ''-bbr'', ''-und'', []}"
    by (rule first_prefix_keys)
  then show ?thesis
    using add_tex_syntax_groups [OF marker_of_eq text_of_eq, of line]
    by (auto simp: mapping_def)
qed

text \<open>
  Claim C5. For every line \<^verbatim>\<open>add_tex_syntax\<close> returns a string and raises nothing: the
  pattern matches, both groups it reads are captured, and a marker other than the empty
  one is a key of \<^verbatim>\<open>mapping\<close>, so that the lookup succeeds. The function reads only
  the constant tables and its argument, so it is a function of the line alone.
\<close>

theorem add_tex_syntax_total:
  "(\<exists>out. add_tex_syntax line = Inr out) \<and>
   (\<exists>mk t. marker_of line = Some mk \<and> text_of line = Some t \<and>
      (mk = [] \<or> (\<exists>v. getitem mapping (Some mk) = Inr v)))"
proof -
  let ?mk = "first_prefix (map fst mapping) line"
  let ?t = "strip_text (length ?mk) line"
  have m: "marker_of line = Some ?mk" by (rule marker_of_eq)
  have t: "text_of line = Some ?t" by (rule text_of_eq)
  have keys: "?mk \<in> {''-bp'', ''-bf'', ''-br'', ''-bbr'', ''-und'', []}"
    by (rule first_prefix_keys)
  have look: "?mk = [] \<or> (\<exists>v. getitem mapping (Some ?mk) = Inr v)"
    using keys by (auto simp: getitem_def mapping_def)
  have "\<exists>out. add_tex_syntax line = Inr out"
    using keys add_tex_syntax_groups [OF m t] by (auto simp: mapping_def)
  then show ?thesis using m t look by blast
qed

lemma strip_text_spaces: "strip_text 0 (replicate n (CHR '' '')) = []"
  by (simp add: strip_text_def dropWhile_replicate)

lemma strip_text_spaces_nl: "strip_text 0 (replicate n (CHR '' '') @ [newline]) = []"
  by (simp add: strip_text_def dropWhile_append dropWhile_replicate newline_def)

text \<open>
  Claim C3, as amended. For every line the pattern matches and captures the marker and
  the text, so the branch for a marker that is \<^verbatim>\<open>None\<close> is never taken. A line that
  starts with no key of \<^verbatim>\<open>mapping\<close> has the empty marker, and takes one of its two
  branches: the expansion of \<^verbatim>\<open>-br\<close> when nothing but spaces precedes the first
  newline or the end, and otherwise the opening fragment, the text, a closing brace and
  the continuation token. In particular a line of \<open>n\<close> spaces, with or without its
  newline, gives the expansion of \<^verbatim>\<open>-br\<close>. Whitespace other than the space
  character is text.
\<close>

theorem marker_never_None:
  "(\<exists>mk t. marker_of line = Some mk \<and> text_of line = Some t) \<and>
   ((\<forall>k \<in> set (map fst mapping). \<not> prefix k line) \<longrightarrow>
      marker_of line = Some [] \<and> text_of line = Some (strip_text 0 line) \<and>
      add_tex_syntax line =
        (if strip_text 0 line = [] then Inr ''$$$$''
         else Inr (common_large_txt @ strip_text 0 line @ brace_close @ common_end_slash))) \<and>
   add_tex_syntax (replicate n (CHR '' '')) = Inr ''$$$$'' \<and>
   add_tex_syntax (replicate n (CHR '' '') @ [newline]) = Inr ''$$$$''"
proof -
  have none: "marker_of l = Some [] \<and> text_of l = Some (strip_text 0 l) \<and>
      add_tex_syntax l =
        (if strip_text 0 l = [] then Inr ''$$$$''
         else Inr (common_large_txt @ strip_text 0 l @ brace_close @ common_end_slash))"
    if "\<forall>k \<in> set (map fst mapping). \<not> prefix k l" for l
  proof -
    have fp: "first_prefix (map fst mapping) l = []"
      using that by (rule first_prefix_none)
    have m: "marker_of l = Some []" by (simp add: marker_of_eq fp)
    have t: "text_of l = Some (strip_text 0 l)" by (simp add: text_of_eq fp)
    show ?thesis using m t add_tex_syntax_groups [OF m t] by simp
  qed
  have sp: "\<forall>k \<in> set (map fst mapping). \<not> prefix k (replicate n (CHR '' ''))"
    by (cases n) (auto simp: mapping_def)
  have spn: "\<forall>k \<in> set (map fst mapping). \<not> prefix k (replicate n (CHR '' '') @ [newline])"
    by (cases n) (auto simp: mapping_def newline_def)
  have "\<exists>mk t. marker_of line = Some mk \<and> text_of line = Some t"
    using marker_of_eq text_of_eq by blast
  moreover have "add_tex_syntax (replicate n (CHR '' '')) = Inr ''$$$$''"
    using none [OF sp] by (simp add: strip_text_spaces)
  moreover have "add_tex_syntax (replicate n (CHR '' '') @ [newline]) = Inr ''$$$$''"
    using none [OF spn] by (simp add: strip_text_spaces_nl)
  ultimately show ?thesis using none [of line] by blast
qed

text \<open>
  The amended claim C3 at the line \<^verbatim>\<open>note\<close> and at a line of two spaces.
\<close>

theorem marker_never_None_witness:
  "marker_of ''note'' = Some [] \<and> text_of ''note'' = Some ''note'' \<and>
   add_tex_syntax ''note'' = Inr (common_large_txt @ ''note'' @ brace_close @ common_end_slash) \<and>
   add_tex_syntax ''  '' = Inr ''$$$$''"
proof -
  have h: "\<forall>k \<in> set (map fst mapping). \<not> prefix k ''note''"
    by (simp add: mapping_def)
  have s: "strip_text 0 ''note'' = ''note''"
    by (simp add: strip_text_def newline_def)
  show ?thesis
    using marker_never_None [of "''note''" 2] h s by (simp add: numeral_2_eq_2)
qed

text \<open>
  Claim C3 as stated says that a whitespace-only line yields the expansion of
  \<^verbatim>\<open>-br\<close>. It fails at the line that is one tab character: the pattern skips
  spaces only, so the tab is the text.
\<close>

theorem tab_line_counterexample:
  "add_tex_syntax [CHR 0x09] \<noteq> Inr ''$$$$''"
proof -
  have m: "marker_of [CHR 0x09] = Some []"
    by (simp add: marker_of_eq first_prefix_def mapping_def)
  have t: "text_of [CHR 0x09] = Some [CHR 0x09]"
    by (simp add: text_of_eq first_prefix_def mapping_def strip_text_def newline_def)
  show ?thesis
    using add_tex_syntax_groups [OF m t]
    by (simp add: common_large_txt_def size_large_def backslash_def)
qed

text \<open>
  Claim C6. A line whose captured marker is \<^verbatim>\<open>-br\<close> gives the four dollar signs, and
  one whose captured marker is \<^verbatim>\<open>-bbr\<close> gives the dollar signs with a space
  between; every line that starts with \<^verbatim>\<open>-br\<close> or \<^verbatim>\<open>-bbr\<close> is such a line,
  whatever follows the marker.
\<close>

theorem br_and_bbr_literal:
  "(marker_of line = Some ''-br'' \<longrightarrow> add_tex_syntax line = Inr ''$$$$'') \<and>
   (marker_of line = Some ''-bbr'' \<longrightarrow> add_tex_syntax line = Inr ''$$ $$'') \<and>
   marker_of (''-br'' @ rest) = Some ''-br'' \<and>
   add_tex_syntax (''-br'' @ rest) = Inr ''$$$$'' \<and>
   marker_of (''-bbr'' @ rest) = Some ''-bbr'' \<and>
   add_tex_syntax (''-bbr'' @ rest) = Inr ''$$ $$''"
proof -
  have a: "add_tex_syntax l = Inr ''$$$$''" if "marker_of l = Some ''-br''" for l
    using add_tex_syntax_groups [OF that text_of_eq] by simp
  have b: "add_tex_syntax l = Inr ''$$ $$''" if "marker_of l = Some ''-bbr''" for l
    using add_tex_syntax_groups [OF that text_of_eq] by simp
  have m1: "marker_of (''-br'' @ rest) = Some ''-br''"
    unfolding marker_of_eq by (simp add: first_prefix_def mapping_def)
  have m2: "marker_of (''-bbr'' @ rest) = Some ''-bbr''"
    unfolding marker_of_eq by (simp add: first_prefix_def mapping_def)
  show ?thesis using a [of line] b [of line] a [OF m1] b [OF m2] m1 m2 by blast
qed

text \<open>
  Claim C6 at two lines with text after the marker.
\<close>

theorem br_and_bbr_literal_witness:
  "marker_of ''-br and more'' = Some ''-br'' \<and> add_tex_syntax ''-br and more'' = Inr ''$$$$'' \<and>
   marker_of ''-bbr and more'' = Some ''-bbr'' \<and> add_tex_syntax ''-bbr and more'' = Inr ''$$ $$''"
  using br_and_bbr_literal [of "''-br and more''" "'' and more''"]
    br_and_bbr_literal [of "''-bbr and more''" "'' and more''"]
  by simp

text \<open>
  Claim C7. For a captured marker among \<^verbatim>\<open>-bp\<close>, \<^verbatim>\<open>-bf\<close> and \<^verbatim>\<open>-und\<close> and the
  captured text \<open>t\<close>, the result is the marker's expansion, \<open>t\<close>, a closing brace, and
  then a second closing brace when the marker is in \<^verbatim>\<open>needs_2nd_close_brace\<close>, which
  holds for \<^verbatim>\<open>-und\<close> only, and the continuation token otherwise.
\<close>

theorem marker_with_text:
  assumes "mk \<in> {''-bp'', ''-bf'', ''-und''}"
    and "marker_of line = Some mk" and "text_of line = Some t"
  shows "\<exists>tpl. getitem mapping (Some mk) = Inr tpl \<and>
           add_tex_syntax line =
             Inr (tpl @ t @ brace_close @
               (if mk \<in> needs_2nd_close_brace then brace_close else common_end_slash)) \<and>
           (mk \<in> needs_2nd_close_brace \<longleftrightarrow> mk = ''-und'')"
  using assms(1) add_tex_syntax_groups [OF assms(2,3)]
  by (auto simp: getitem_def mapping_def needs_2nd_close_brace_def)

text \<open>
  Claim C7 at the two lines of the specification, \<^verbatim>\<open>-und important\<close> and
  \<^verbatim>\<open>-bf title\<close>.
\<close>

theorem marker_with_text_witness:
  "add_tex_syntax ''-und important'' =
     Inr ((backslash # ''underline{'') @ common_large_txt @ ''important'' @ ''}}'') \<and>
   add_tex_syntax ''-bf title'' =
     Inr (size_large @ (backslash # ''textbf{'') @ ''title'' @ ''}'' @ common_end_slash)"
proof -
  have m1: "marker_of ''-und important'' = Some ''-und''"
    by (simp add: marker_of_eq first_prefix_def mapping_def)
  have t1: "text_of ''-und important'' = Some ''important''"
    by (simp add: text_of_eq first_prefix_def mapping_def strip_text_def newline_def)
  have m2: "marker_of ''-bf title'' = Some ''-bf''"
    by (simp add: marker_of_eq first_prefix_def mapping_def)
  have t2: "text_of ''-bf title'' = Some ''title''"
    by (simp add: text_of_eq first_prefix_def mapping_def strip_text_def newline_def)
  have k1: "''-und'' \<in> {''-bp'', ''-bf'', ''-und''}" by simp
  have k2: "''-bf'' \<in> {''-bp'', ''-bf'', ''-und''}" by simp
  show ?thesis
    using marker_with_text [OF k1 m1 t1] marker_with_text [OF k2 m2 t2]
    by (simp add: getitem_def mapping_def needs_2nd_close_brace_def brace_close_def)
qed

text \<open>
  Claim C9. For every key \<open>mk\<close> of \<^verbatim>\<open>mapping\<close> and every text \<open>t\<close> (with or without a
  newline), the result on the key, a space and \<open>t\<close> starts with the expansion of
  \<open>mk\<close>, and every call on that same line returns that same result.
\<close>

theorem marked_line_starts_with_template:
  assumes "mk \<in> set (map fst mapping)"
  shows "\<exists>tpl out. getitem mapping (Some mk) = Inr tpl \<and>
           add_tex_syntax (mk @ '' '' @ t) = Inr out \<and> prefix tpl out \<and>
           (\<forall>line. line = mk @ '' '' @ t \<longrightarrow> add_tex_syntax line = Inr out)"
proof -
  have m: "marker_of (mk @ '' '' @ t) = Some mk"
    using assms by (simp add: marker_of_eq first_prefix_key)
  obtain tx where tx: "text_of (mk @ '' '' @ t) = Some tx"
    using text_of_eq by blast
  show ?thesis
    using assms add_tex_syntax_groups [OF m tx]
    by (auto simp: getitem_def mapping_def)
qed

text \<open>
  Claim C9 at the line \<^verbatim>\<open>-bp item\<close>.
\<close>

theorem marked_line_starts_with_template_witness:
  "add_tex_syntax (''-bp'' @ '' '' @ ''item'') =
     Inr ((backslash # ''bullet'') @ common_large_txt @ '' '' @ ''item}'' @ common_end_slash) \<and>
   prefix ((backslash # ''bullet'') @ common_large_txt @ '' '')
     ((backslash # ''bullet'') @ common_large_txt @ '' '' @ ''item}'' @ common_end_slash)"
proof -
  have k: "''-bp'' \<in> set (map fst mapping)" by (simp add: mapping_def)
  have e: "add_tex_syntax (''-bp'' @ '' '' @ ''item'') =
     Inr ((backslash # ''bullet'') @ common_large_txt @ '' '' @ ''item}'' @ common_end_slash)"
    by (simp add: add_tex_syntax_def re_match_def PATTERN_def possible_starts_def starts_def
      mapping_def rest_of_string_def run_len_def newline_def getitem_def
      needs_2nd_close_brace_def brace_close_def)
  show ?thesis
    using marked_line_starts_with_template [OF k, of "''item''"] e
    by (auto simp: getitem_def mapping_def)
qed

section \<open>Reading and writing lines\<close>

lemma readline_terminated:
  "newline \<notin> set l \<Longrightarrow> readline (l @ newline # rest) = (l @ [newline], rest)"
  by (simp add: readline_def dropWhile_append3 takeWhile_append2 dropWhile_append)

lemma readline_last:
  "newline \<notin> set l \<Longrightarrow> readline l = (l, [])"
proof -
  assume "newline \<notin> set l"
  then have "dropWhile (\<lambda>c. c \<noteq> newline) l = []" by (induction l) auto
  then show ?thesis by (simp only: readline_def list.case)
qed

lemma lines_of_terminated:
  "newline \<notin> set l \<Longrightarrow> lines_of (l @ newline # rest) = l # lines_of rest"
  by (induction l) auto

lemma lines_of_last:
  "newline \<notin> set l \<Longrightarrow> l \<noteq> [] \<Longrightarrow> lines_of l = [l]"
proof (induction l)
  case Nil
  then show ?case by simp
next
  case (Cons c l)
  then show ?case by (cases l) auto
qed

lemma split_at_newline:
  "newline \<notin> set f \<or> (\<exists>l rest. f = l @ newline # rest \<and> newline \<notin> set l)"
proof (cases "newline \<in> set f")
  case True
  then obtain l rest where "f = l @ newline # rest" "newline \<notin> set l"
    by (meson split_list_first)
  then show ?thesis by blast
next
  case False
  then show ?thesis by simp
qed

lemma strip_text_no_newline: "newline \<notin> set (strip_text j s)"
  unfolding strip_text_def by (auto dest: set_takeWhileD)

lemma add_tex_syntax_no_newline:
  assumes "add_tex_syntax line = Inr out"
  shows "newline \<notin> set out"
proof -
  let ?mk = "first_prefix (map fst mapping) line"
  let ?t = "strip_text (length ?mk) line"
  have t: "newline \<notin> set ?t" by (rule strip_text_no_newline)
  have keys: "?mk \<in> {''-bp'', ''-bf'', ''-br'', ''-bbr'', ''-und'', []}"
    by (rule first_prefix_keys)
  have "add_tex_syntax line =
     (if ?mk = ''-br'' then Inr ''$$$$''
      else if ?mk = ''-bbr'' then Inr ''$$ $$''
      else if ?mk = [] then
        (if ?t \<noteq> [] then Inr (common_large_txt @ ?t @ brace_close @ common_end_slash)
         else Inr ''$$$$'')
      else (case map_of mapping ?mk of
              None \<Rightarrow> Inl KeyError
            | Some v \<Rightarrow>
                Inr (v @ ?t @ brace_close @
                  (if ?mk \<in> needs_2nd_close_brace then brace_close else common_end_slash))))"
    by (rule add_tex_syntax_groups [OF marker_of_eq text_of_eq])
  then show ?thesis
    using keys t assms
    by (auto simp: mapping_def common_large_txt_def size_large_def ctt_type_text_def
        brace_open_def brace_close_def common_end_slash_def backslash_def newline_def
        needs_2nd_close_brace_def split: if_splits)
qed

lemma prefix_before_newline:
  assumes "newline \<notin> set k" and "newline \<notin> set l"
  shows "prefix k (l @ newline # rest) \<longleftrightarrow> prefix k l"
proof
  assume "prefix k (l @ newline # rest)"
  then consider "prefix k l" | us where "k = l @ us" "prefix us (newline # rest)"
    by (auto simp: prefix_append)
  then show "prefix k l"
  proof cases
    case 1
    then show ?thesis .
  next
    case 2
    then have "us = []" using assms(1) by (cases us) auto
    then show ?thesis using 2 by simp
  qed
next
  assume "prefix k l"
  then show "prefix k (l @ newline # rest)" by (rule prefix_prefix)
qed

lemma first_prefix_before_newline:
  assumes "newline \<notin> set l"
  shows "first_prefix (map fst mapping) (l @ newline # rest) = first_prefix (map fst mapping) l"
proof -
  have "\<And>k. k \<in> set (map fst mapping) \<Longrightarrow> newline \<notin> set k"
    by (auto simp: mapping_def newline_def)
  then have "\<And>k. k \<in> set (map fst mapping) \<Longrightarrow>
      prefix k (l @ newline # rest) \<longleftrightarrow> prefix k l"
    using assms by (simp add: prefix_before_newline)
  then have "find (\<lambda>x. prefix x (l @ newline # rest)) (map fst mapping)
      = find (\<lambda>x. prefix x l) (map fst mapping)"
    by (intro find_cong) auto
  then show ?thesis by (simp only: first_prefix_def)
qed

lemma strip_text_before_newline:
  assumes "newline \<notin> set l" and "j \<le> length l"
  shows "strip_text j (l @ newline # rest) = strip_text j l"
proof -
  let ?sp = "\<lambda>c. c = CHR '' ''"
  let ?a = "drop j l"
  let ?b = "dropWhile ?sp ?a"
  have d: "drop j (l @ newline # rest) = ?a @ newline # rest" using assms(2) by simp
  have b: "newline \<notin> set ?b" using assms(1) by (auto dest: set_dropWhileD in_set_dropD)
  have tw: "takeWhile (\<lambda>c. c \<noteq> newline) (xs @ newline # ys) = xs"
    if "newline \<notin> set xs" for xs ys
    using that by (induction xs) auto
  have tw': "takeWhile (\<lambda>c. c \<noteq> newline) xs = xs" if "newline \<notin> set xs" for xs
    using that by (induction xs) auto
  have "dropWhile ?sp (?a @ newline # rest) = ?b @ newline # rest"
  proof (cases "\<forall>x \<in> set ?a. x = CHR '' ''")
    case True
    then have "?b = []" by simp
    moreover have "dropWhile ?sp (?a @ newline # rest) = newline # rest"
      using True by (simp add: dropWhile_append newline_def)
    ultimately show ?thesis by simp
  next
    case False
    then show ?thesis by (simp add: dropWhile_append newline_def)
  qed
  then have "strip_text j (l @ newline # rest) = takeWhile (\<lambda>c. c \<noteq> newline) (?b @ newline # rest)"
    by (simp only: strip_text_def d)
  also have "\<dots> = ?b" by (rule tw [OF b])
  also have "\<dots> = strip_text j l" by (simp only: strip_text_def tw' [OF b])
  finally show ?thesis .
qed

lemma add_tex_syntax_newline:
  assumes "newline \<notin> set l"
  shows "add_tex_syntax (l @ newline # rest) = add_tex_syntax l"
proof -
  let ?mk = "first_prefix (map fst mapping) l"
  have fp: "first_prefix (map fst mapping) (l @ newline # rest) = ?mk"
    using assms by (rule first_prefix_before_newline)
  have "take (length ?mk) l = ?mk" by (rule first_prefix_take)
  then have len: "length ?mk \<le> length l"
    by (metis length_take min.cobounded1)
  have m: "marker_of (l @ newline # rest) = marker_of l"
    by (simp only: marker_of_eq fp)
  have t: "text_of (l @ newline # rest) = text_of l"
    by (simp only: text_of_eq fp strip_text_before_newline [OF assms len])
  show ?thesis
    using add_tex_syntax_groups [OF marker_of_eq text_of_eq, of l]
      add_tex_syntax_groups [of "l @ newline # rest", OF _ _] m t marker_of_eq text_of_eq
    by metis
qed

lemma process_files_lines:
  "\<exists>outs. list_all2 (\<lambda>l out. add_tex_syntax l = Inr out) (lines_of infile) outs \<and>
     process_files infile outfile =
       (None, outfile @ concat (map (\<lambda>out. out @ [newline]) outs))"
proof (induction infile arbitrary: outfile rule: length_induct)
  case (1 infile)
  consider "infile = []" | "infile \<noteq> []" "newline \<notin> set infile"
    | l rest where "infile = l @ newline # rest" "newline \<notin> set l"
    using split_at_newline [of infile] by blast
  then show ?case
  proof cases
    case 1
    then have "process_files infile outfile = (None, outfile)"
      by (subst process_files.simps) (simp add: readline_def)
    then show ?thesis using 1 by simp
  next
    case 2
    obtain out where out: "add_tex_syntax infile = Inr out"
      using add_tex_syntax_returns by blast
    have "process_files [] (outfile @ out @ [newline]) = (None, outfile @ out @ [newline])"
      by (subst process_files.simps) (simp add: readline_def)
    then have "process_files infile outfile = (None, outfile @ out @ [newline])"
      using 2 out by (subst process_files.simps) (simp add: readline_last)
    moreover have "lines_of infile = [infile]" using 2 by (simp add: lines_of_last)
    ultimately have "list_all2 (\<lambda>l out. add_tex_syntax l = Inr out) (lines_of infile) [out] \<and>
      process_files infile outfile = (None, outfile @ concat (map (\<lambda>out. out @ [newline]) [out]))"
      using out by simp
    then show ?thesis by blast
  next
    case 3
    obtain out where out: "add_tex_syntax l = Inr out"
      using add_tex_syntax_returns by blast
    have out': "add_tex_syntax (l @ [newline]) = Inr out"
      using add_tex_syntax_newline [OF 3(2), of "[]"] out by simp
    have "length rest < length infile" using 3(1) by simp
    then obtain outs where outs:
      "list_all2 (\<lambda>l out. add_tex_syntax l = Inr out) (lines_of rest) outs"
      "process_files rest (outfile @ out @ [newline]) =
         (None, (outfile @ out @ [newline]) @ concat (map (\<lambda>out. out @ [newline]) outs))"
      using "1.IH" by blast
    have "process_files infile outfile = process_files rest (outfile @ out @ [newline])"
      using 3 out' by (subst process_files.simps) (simp add: readline_terminated)
    then have "list_all2 (\<lambda>l out. add_tex_syntax l = Inr out) (lines_of infile) (out # outs) \<and>
      process_files infile outfile =
        (None, outfile @ concat (map (\<lambda>out. out @ [newline]) (out # outs)))"
      using 3 out outs by (simp add: lines_of_terminated)
    then show ?thesis by blast
  qed
qed

lemma lines_of_outputs:
  assumes "\<forall>out \<in> set outs. newline \<notin> set out"
  shows "lines_of (concat (map (\<lambda>out. out @ [newline]) outs) @ tail) = outs @ lines_of tail"
  using assms by (induction outs) (simp_all add: lines_of_terminated)

lemma outputs_no_newline:
  assumes "list_all2 (\<lambda>l out. add_tex_syntax l = Inr out) ls outs"
  shows "\<forall>out \<in> set outs. newline \<notin> set out"
  using assms by (induction rule: list_all2_induct) (auto dest: add_tex_syntax_no_newline)

lemma lines_of_written:
  assumes "list_all2 (\<lambda>l out. add_tex_syntax l = Inr out) ls outs"
  shows "lines_of (common_tex_dollars @ [newline] @ concat (map (\<lambda>out. out @ [newline]) outs) @
           common_tex_dollars @ [newline]) = common_tex_dollars # outs @ [common_tex_dollars]"
proof -
  have d: "newline \<notin> set common_tex_dollars"
    by (simp add: common_tex_dollars_def newline_def)
  have "lines_of (common_tex_dollars @ newline # []) = [common_tex_dollars]"
    using lines_of_terminated [OF d, of "[]"] by simp
  then have "lines_of (concat (map (\<lambda>out. out @ [newline]) outs) @ common_tex_dollars @ [newline])
    = outs @ [common_tex_dollars]"
    using lines_of_outputs [OF outputs_no_newline [OF assms]] by simp
  then show ?thesis
    using lines_of_terminated [OF d,
      of "concat (map (\<lambda>out. out @ [newline]) outs) @ common_tex_dollars @ [newline]"]
    by simp
qed

lemma write_output_text:
  assumes "outfile_path \<noteq> infile_name" and "files w infile_name = Some content"
  shows "\<exists>outs. list_all2 (\<lambda>l out. add_tex_syntax l = Inr out) (lines_of content) outs \<and>
     write_output infile_name outfile_path w =
       (None, w\<lparr>files := (files w)(outfile_path \<mapsto>
          common_tex_dollars @ [newline] @ concat (map (\<lambda>out. out @ [newline]) outs) @
          common_tex_dollars @ [newline])\<rparr>)"
proof -
  obtain outs where outs:
    "list_all2 (\<lambda>l out. add_tex_syntax l = Inr out) (lines_of content) outs"
    "process_files content (common_tex_dollars @ [newline]) =
       (None, (common_tex_dollars @ [newline]) @ concat (map (\<lambda>out. out @ [newline]) outs))"
    using process_files_lines by blast
  have "write_output infile_name outfile_path w =
       (None, w\<lparr>files := (files w)(outfile_path \<mapsto>
          common_tex_dollars @ [newline] @ concat (map (\<lambda>out. out @ [newline]) outs) @
          common_tex_dollars @ [newline])\<rparr>)"
    using assms outs(2) by (simp add: write_output_def Let_def)
  then show ?thesis using outs(1) by blast
qed

section \<open>The matcher and the file-name pattern\<close>

lemma greedy_None_iff: "greedy k i n = None \<longleftrightarrow> (\<forall>d \<le> n. k (i + d) = None)"
proof (induction n)
  case 0
  show ?case by simp
next
  case (Suc n)
  show ?case
  proof (cases "k (i + Suc n)")
    case None
    then show ?thesis using Suc by (auto simp: le_Suc_eq)
  next
    case (Some r)
    then show ?thesis by auto
  qed
qed

lemma lazy_None_iff: "lazy k i n = None \<longleftrightarrow> (\<forall>d \<le> n. k (i + d) = None)"
proof (induction n arbitrary: i)
  case 0
  show ?case by simp
next
  case (Suc n)
  show ?case
  proof (cases "k i")
    case None
    have "(\<forall>d \<le> n. k (Suc i + d) = None) \<longleftrightarrow> (\<forall>d \<le> Suc n. k (i + d) = None)"
    proof
      assume h: "\<forall>d \<le> n. k (Suc i + d) = None"
      show "\<forall>d \<le> Suc n. k (i + d) = None"
      proof (intro allI impI)
        fix d assume "d \<le> Suc n"
        then show "k (i + d) = None" using h None by (cases d) auto
      qed
    next
      assume h: "\<forall>d \<le> Suc n. k (i + d) = None"
      show "\<forall>d \<le> n. k (Suc i + d) = None"
      proof (intro allI impI)
        fix d assume "d \<le> n"
        then have "k (i + Suc d) = None" using h by (metis Suc_le_mono)
        then show "k (Suc i + d) = None" by simp
      qed
    qed
    then show ?thesis using None Suc [of "Suc i"] by simp
  next
    case (Some r)
    then have "k (i + 0) \<noteq> None" by simp
    then show ?thesis using Some by (metis le0 lazy.simps(2) option.case(2) option.distinct(1))
  qed
qed

lemma greedy_SomeD: "greedy k i n = Some r \<Longrightarrow> \<exists>d \<le> n. k (i + d) = Some r"
proof (induction n)
  case 0
  then show ?case by simp
next
  case (Suc n)
  show ?case
  proof (cases "k (i + Suc n)")
    case None
    then have "greedy k i n = Some r" using Suc.prems by simp
    then show ?thesis using Suc.IH by (metis le_Suc_eq)
  next
    case (Some r')
    then have "r' = r" using Suc.prems by simp
    then show ?thesis using Some by blast
  qed
qed

lemma lazy_SomeD: "lazy k i n = Some r \<Longrightarrow> \<exists>d \<le> n. k (i + d) = Some r"
proof (induction n arbitrary: i)
  case 0
  then show ?case by simp
next
  case (Suc n)
  show ?case
  proof (cases "k i")
    case None
    then have "lazy k (Suc i) n = Some r" using Suc.prems by simp
    then obtain d where "d \<le> n" "k (Suc i + d) = Some r" using Suc.IH by blast
    then have "Suc d \<le> Suc n \<and> k (i + Suc d) = Some r" by simp
    then show ?thesis by blast
  next
    case (Some r')
    then have "r' = r" using Suc.prems by simp
    then have "0 \<le> Suc n \<and> k (i + 0) = Some r" using Some by simp
    then show ?thesis by blast
  qed
qed

lemma matches_sound:
  "matches r s i g k = Some x \<Longrightarrow> \<exists>j g'. sem r s i g j g' \<and> k j g' = Some x"
proof (induction r arbitrary: i g k x)
  case (Lit cs)
  then show ?case by (auto split: if_splits intro: sem_Lit)
next
  case Bol
  then show ?case by (auto split: if_splits intro: sem_Bol)
next
  case Eol
  then show ?case by (auto split: if_splits intro: sem_Eol)
next
  case (Star P)
  then show ?case by (auto dest!: greedy_SomeD intro: sem_Star)
next
  case (StarLazy P)
  then show ?case by (auto dest!: lazy_SomeD intro: sem_StarLazy)
next
  case (Opt r)
  show ?case
  proof (cases "matches r s i g k")
    case None
    then have "k i g = Some x" using Opt.prems by simp
    then show ?thesis using sem_Skip by blast
  next
    case (Some y)
    then have "matches r s i g k = Some x" using Opt.prems by simp
    then show ?thesis using Opt.IH sem_Opt by blast
  qed
next
  case (Alt r1 r2)
  show ?case
  proof (cases "matches r1 s i g k")
    case None
    then have "matches r2 s i g k = Some x" using Alt.prems by simp
    then show ?thesis using Alt.IH(2) sem_AltR by blast
  next
    case (Some y)
    then have "matches r1 s i g k = Some x" using Alt.prems by simp
    then show ?thesis using Alt.IH(1) sem_AltL by blast
  qed
next
  case (Seq r1 r2)
  from Seq.prems have "matches r1 s i g (\<lambda>j g'. matches r2 s j g' k) = Some x" by simp
  then obtain j g' where a: "sem r1 s i g j g'" "matches r2 s j g' k = Some x"
    using Seq.IH(1) by blast
  then obtain l g'' where b: "sem r2 s j g' l g''" "k l g'' = Some x"
    using Seq.IH(2) by blast
  show ?case using a(1) b sem_Seq by blast
next
  case (Group n r)
  from Group.prems have
    "matches r s i g (\<lambda>j g'. k j (g'(n \<mapsto> take (j - i) (drop i s)))) = Some x" by simp
  then obtain j g' where "sem r s i g j g'" "k j (g'(n \<mapsto> take (j - i) (drop i s))) = Some x"
    using Group.IH by blast
  then show ?case using sem_Group by blast
next
  case (Paren r)
  then show ?case using sem_Paren by fastforce
qed

lemma matches_complete:
  "sem r s i g j g' \<Longrightarrow> k j g' \<noteq> None \<Longrightarrow> matches r s i g k \<noteq> None"
proof (induction arbitrary: k rule: sem.induct)
  case (sem_Star d P s i g)
  then show ?case by (auto simp: greedy_None_iff)
next
  case (sem_StarLazy d P s i g)
  then show ?case by (auto simp: lazy_None_iff)
next
  case (sem_Seq r1 s i g j g' r2 l g'')
  have "matches r2 s j g' k \<noteq> None" using sem_Seq.IH(2) sem_Seq.prems by blast
  then have "matches r1 s i g (\<lambda>j g'. matches r2 s j g' k) \<noteq> None"
    by (rule sem_Seq.IH(1) [of "\<lambda>j g'. matches r2 s j g' k"])
  then show ?case by simp
next
  case (sem_Group r s i g j g' n)
  have "matches r s i g (\<lambda>j g'. k j (g'(n \<mapsto> take (j - i) (drop i s)))) \<noteq> None"
    by (rule sem_Group.IH [of "\<lambda>j g'. k j (g'(n \<mapsto> take (j - i) (drop i s)))"])
      (rule sem_Group.prems)
  then show ?case by simp
next
  case (sem_Opt r s i g j g')
  have "matches r s i g k \<noteq> None"
    by (rule sem_Opt.IH) (rule sem_Opt.prems)
  then show ?case by auto
next
  case (sem_AltL r1 s i g j g' r2)
  have "matches r1 s i g k \<noteq> None"
    by (rule sem_AltL.IH) (rule sem_AltL.prems)
  then show ?case by auto
next
  case (sem_AltR r2 s i g j g' r1)
  have "matches r2 s i g k \<noteq> None"
    by (rule sem_AltR.IH) (rule sem_AltR.prems)
  then show ?case by (auto split: option.splits)
next
  case (sem_Paren r s i g j g')
  have "matches r s i g k \<noteq> None"
    by (rule sem_Paren.IH) (rule sem_Paren.prems)
  then show ?case by simp
qed (auto split: option.splits)

lemma matches_None_groups:
  assumes "\<And>j g1 g2. (k j g1 = None) = (k' j g2 = None)"
  shows "(matches r s i g k = None) = (matches r s i g' k' = None)"
  using assms
proof (induction r arbitrary: i g g' k k')
  case (Star P)
  have "\<And>j. (k j g = None) = (k' j g' = None)" using Star.prems by blast
  then show ?case by (simp add: greedy_None_iff)
next
  case (StarLazy P)
  have "\<And>j. (k j g = None) = (k' j g' = None)" using StarLazy.prems by blast
  then show ?case by (simp add: lazy_None_iff)
next
  case (Opt r)
  have "(matches r s i g k = None) = (matches r s i g' k' = None)"
    using Opt.IH Opt.prems by blast
  moreover have "(k i g = None) = (k' i g' = None)" using Opt.prems by blast
  ultimately show ?case by (auto split: option.splits)
next
  case (Alt r1 r2)
  have "(matches r1 s i g k = None) = (matches r1 s i g' k' = None)"
    using Alt.IH(1) Alt.prems by blast
  moreover have "(matches r2 s i g k = None) = (matches r2 s i g' k' = None)"
    using Alt.IH(2) Alt.prems by blast
  ultimately show ?case by (auto split: option.splits)
next
  case (Seq r1 r2)
  have "\<And>j g1 g2. (matches r2 s j g1 k = None) = (matches r2 s j g2 k' = None)"
    using Seq.IH(2) Seq.prems by blast
  then have "(matches r1 s i g (\<lambda>j g'. matches r2 s j g' k) = None)
    = (matches r1 s i g' (\<lambda>j g'. matches r2 s j g' k') = None)"
    by (rule Seq.IH(1))
  then show ?case by simp
next
  case (Group n r)
  have "(matches r s i g (\<lambda>j g'. k j (g'(n \<mapsto> take (j - i) (drop i s)))) = None)
    = (matches r s i g' (\<lambda>j g'. k' j (g'(n \<mapsto> take (j - i) (drop i s)))) = None)"
    by (rule Group.IH) (use Group.prems in blast)
  then show ?case by simp
qed (auto)

lemma run_len_holds: "d < run_len P s i \<Longrightarrow> P (s ! (i + d))"
proof -
  assume d: "d < run_len P s i"
  let ?xs = "drop i s"
  have "takeWhile P ?xs ! d \<in> set (takeWhile P ?xs)"
    using d by (simp add: run_len_def)
  then have "P (takeWhile P ?xs ! d)" by (rule set_takeWhileD [THEN conjunct2])
  moreover have "takeWhile P ?xs ! d = ?xs ! d"
    using d by (simp add: run_len_def takeWhile_nth)
  moreover have "i + d < length s"
    using d length_takeWhile_le [of P ?xs] by (simp add: run_len_def)
  ultimately show ?thesis by simp
qed

lemma infile_match_shape:
  assumes "re_match infile_pattern p = Some g"
  shows "\<exists>j e f. j \<le> e \<and> Suc e \<le> f \<and> g ''origin'' = Some (take j p) \<and>
           g ''name'' = Some (take (e - j) (drop j p)) \<and>
           take 1 (drop e p) = ''.'' \<and> f - Suc e \<le> run_len is_word p (Suc e) \<and>
           (f = length p \<or> (Suc f = length p \<and> p ! f = newline))"
proof -
  let ?name = "Group ''name'' (Star (\<lambda>c. c = CHR ''-'' \<or> is_word c \<or> c = CHR ''.''))"
  let ?ext = "Group ''ext'' (Seq (Lit ''.'') (Star is_word))"
  define R2 where "R2 = Seq ?name (Seq ?ext Eol)"
  define fin where "fin = (\<lambda>(j::nat) (g::groups). Some g)"
  define K where "K = (\<lambda>j. matches R2 p j (Map.empty(''origin'' \<mapsto> take (j - 0) (drop 0 p))) fin)"
  define n where "n = run_len (\<lambda>c. c \<noteq> newline) p 0"
  have unfold: "re_match infile_pattern p =
      (case lazy K 0 n of Some x \<Rightarrow> Some x | None \<Rightarrow> matches R2 p 0 Map.empty fin)"
    unfolding K_def R2_def fin_def n_def
    by (simp only: re_match_def infile_pattern_def matches.simps simp_thms if_True)
  have "lazy K 0 n \<noteq> None"
  proof
    assume none: "lazy K 0 n = None"
    then have "K (0 + 0) = None" using lazy_None_iff [of K 0 n] by blast
    then have "matches R2 p 0 (Map.empty(''origin'' \<mapsto> take (0 - 0) (drop 0 p))) fin = None"
      by (simp only: K_def add_0)
    then have "matches R2 p 0 Map.empty fin = None"
      using matches_None_groups [of fin fin R2 p 0] by (simp only: fin_def) blast
    then show False using unfold none assms by (simp only: option.case) simp
  qed
  then obtain x where x: "lazy K 0 n = Some x" by blast
  then have "x = g" using unfold assms by (simp only: option.case) simp
  then obtain d where "K (0 + d) = Some g" using lazy_SomeD [OF x] by blast
  then obtain j where j: "K j = Some g" by blast
  define g0 :: groups where "g0 = Map.empty(''origin'' \<mapsto> take (j - 0) (drop 0 p))"
  have "matches R2 p j g0 fin = Some g" using j by (simp only: K_def g0_def)
  then obtain l g' where "sem R2 p j g0 l g'" "fin l g' = Some g"
    using matches_sound by blast
  then have "sem R2 p j g0 l g" by (simp add: fin_def)
  then obtain e g1 where e: "sem ?name p j g0 e g1" and rest: "sem (Seq ?ext Eol) p e g1 l g"
    unfolding R2_def by (auto elim: sem_SeqE)
  from e obtain d where d: "e = j + d" "g1 = g0(''name'' \<mapsto> take (e - j) (drop j p))"
    by (auto elim!: sem_GroupE sem_StarE)
  from rest obtain f g2 where f: "sem ?ext p e g1 f g2" and eol: "sem Eol p f g2 l g"
    by (auto elim: sem_SeqE)
  from eol have eol': "g = g2" "f = length p \<or> (Suc f = length p \<and> p ! f = newline)"
    by (auto elim: sem_EolE)
  from f obtain g3 where g3: "sem (Seq (Lit ''.'') (Star is_word)) p e g1 f g3"
    "g2 = g3(''ext'' \<mapsto> take (f - e) (drop e p))"
    by (auto elim: sem_GroupE)
  from g3(1) obtain m g4 where m: "sem (Lit ''.'') p e g1 m g4" "sem (Star is_word) p m g4 f g3"
    by (auto elim!: sem_SeqE)
  from m(1) have dot: "take 1 (drop e p) = ''.''" "m = Suc e" "g4 = g1"
    by (auto elim: sem_LitE)
  from m(2) obtain d3 where d3: "f = m + d3" "d3 \<le> run_len is_word p m" "g3 = g4"
    by (auto elim: sem_StarE)
  have "g ''origin'' = Some (take j p)" "g ''name'' = Some (take (e - j) (drop j p))"
    using eol'(1) g3(2) d3(3) dot(3) d(2) by (simp_all add: g0_def)
  moreover have "j \<le> e" "Suc e \<le> f" "f - Suc e \<le> run_len is_word p (Suc e)"
    using d(1) d3(1,2) dot(2) by simp_all
  ultimately show ?thesis using dot(1) eol'(2) by blast
qed

lemma derive_outfile_shape:
  assumes "derive_outfile p = Inr (n, outfile_path)"
  shows "\<exists>e f. Suc e \<le> f \<and> take 1 (drop e p) = ''.'' \<and>
           f - Suc e \<le> run_len is_word p (Suc e) \<and>
           (f = length p \<or> (Suc f = length p \<and> p ! f = newline)) \<and>
           outfile_path = take e p @ ''_texit_out.txt'' \<and>
           (\<exists>j \<le> e. n = take (e - j) (drop j p) @ ''_texit_out.txt'')"
proof -
  obtain g where g: "re_match infile_pattern p = Some g"
    using assms by (auto simp: derive_outfile_def split: option.splits)
  obtain j e f where s: "j \<le> e" "Suc e \<le> f" "g ''origin'' = Some (take j p)"
    "g ''name'' = Some (take (e - j) (drop j p))" "take 1 (drop e p) = ''.''"
    "f - Suc e \<le> run_len is_word p (Suc e)"
    "f = length p \<or> (Suc f = length p \<and> p ! f = newline)"
    using infile_match_shape [OF g] by blast
  have tk: "take j p @ take (e - j) (drop j p) = take e p"
    using s(1) take_add [of j "e - j" p] by simp
  have "derive_outfile p = Inr (take (e - j) (drop j p) @ ''_texit_out.txt'',
      take j p @ take (e - j) (drop j p) @ ''_texit_out.txt'')"
    by (simp only: derive_outfile_def g s(3,4) option.case)
  then have "n = take (e - j) (drop j p) @ ''_texit_out.txt''"
    and "outfile_path = (take j p @ take (e - j) (drop j p)) @ ''_texit_out.txt''"
    using assms by simp_all
  then have "n = take (e - j) (drop j p) @ ''_texit_out.txt''"
    and "outfile_path = take e p @ ''_texit_out.txt''"
    by (simp_all only: tk)
  then show ?thesis using s by blast
qed

lemma outfile_is_not_infile:
  assumes "derive_outfile p = Inr (n, outfile_path)"
  shows "outfile_path \<noteq> p"
proof
  assume eq: "outfile_path = p"
  obtain e where e: "take 1 (drop e p) = ''.''" "outfile_path = take e p @ ''_texit_out.txt''"
    using derive_outfile_shape [OF assms] by blast
  have "take e p @ drop e p = take e p @ ''_texit_out.txt''"
    using e(2) eq by (metis append_take_drop_id)
  then have "drop e p = ''_texit_out.txt''" by (simp only: same_append_eq)
  then show False using e(1) by simp
qed

lemma not_word_dot: "\<not> is_word (CHR ''.'')"
  by (simp add: is_word_def)

lemma not_word_newline: "\<not> is_word newline"
  by (simp add: is_word_def newline_def)

lemma takeWhile_all: "\<forall>c \<in> set xs. P c \<Longrightarrow> takeWhile P (xs @ ys) = xs @ takeWhile P ys"
  by (induction xs) auto

lemma infile_pattern_matches:
  assumes "newline \<notin> set pre" and "\<forall>c \<in> set w. is_word c"
  shows "re_match infile_pattern (pre @ ''.'' @ w) \<noteq> None"
proof -
  let ?p = "pre @ ''.'' @ w"
  let ?j = "length pre"
  let ?nn = "\<lambda>c. c \<noteq> newline"
  let ?nc = "\<lambda>c. c = CHR ''-'' \<or> is_word c \<or> c = CHR ''.''"
  define g1 :: groups where "g1 = Map.empty(''origin'' \<mapsto> take (?j - 0) (drop 0 ?p))"
  define g2 :: groups where "g2 = g1(''name'' \<mapsto> take (?j - ?j) (drop ?j ?p))"
  define g3 :: groups where
    "g3 = g2(''ext'' \<mapsto> take (?j + length ''.'' + length w - ?j) (drop ?j ?p))"
  have "\<forall>c \<in> set pre. ?nn c" using assms(1) by auto
  then have "takeWhile ?nn ?p = pre @ takeWhile ?nn (''.'' @ w)" by (rule takeWhile_all)
  then have "?j \<le> run_len ?nn ?p 0" by (simp add: run_len_def)
  then have "sem (StarLazy ?nn) ?p 0 Map.empty (0 + ?j) Map.empty" by (rule sem_StarLazy)
  then have "sem (Group ''origin'' (StarLazy ?nn)) ?p 0 Map.empty (0 + ?j)
      (Map.empty(''origin'' \<mapsto> take (0 + ?j - 0) (drop 0 ?p)))"
    by (rule sem_Group)
  then have o: "sem (Opt (Group ''origin'' (StarLazy ?nn))) ?p 0 Map.empty ?j g1"
    unfolding g1_def by (simp add: sem_Opt)
  have "sem (Star ?nc) ?p ?j g1 (?j + 0) g1" by (rule sem_Star) simp
  then have "sem (Group ''name'' (Star ?nc)) ?p ?j g1 (?j + 0)
      (g1(''name'' \<mapsto> take (?j + 0 - ?j) (drop ?j ?p)))"
    by (rule sem_Group)
  then have n: "sem (Group ''name'' (Star ?nc)) ?p ?j g1 ?j g2"
    unfolding g2_def by simp
  have "take (length ''.'') (drop ?j ?p) = ''.''" by simp
  then have l: "sem (Lit ''.'') ?p ?j g2 (?j + length ''.'') g2" by (rule sem_Lit)
  have "takeWhile is_word (w @ []) = w @ takeWhile is_word []"
    using assms(2) by (rule takeWhile_all)
  then have tw: "takeWhile is_word w = w" by (simp only: append_Nil2 takeWhile.simps)
  have "drop (?j + length ''.'') ?p = w" by simp
  then have "run_len is_word ?p (?j + length ''.'') = length w"
    by (simp only: run_len_def tw)
  then have "length w \<le> run_len is_word ?p (?j + length ''.'')"
    by (simp only: order_refl)
  then have "sem (Star is_word) ?p (?j + length ''.'') g2 (?j + length ''.'' + length w) g2"
    by (rule sem_Star)
  then have "sem (Seq (Lit ''.'') (Star is_word)) ?p ?j g2 (?j + length ''.'' + length w) g2"
    using l sem_Seq by blast
  then have e: "sem (Group ''ext'' (Seq (Lit ''.'') (Star is_word))) ?p ?j g2
      (?j + length ''.'' + length w) g3"
    unfolding g3_def by (rule sem_Group)
  have "sem Eol ?p (?j + length ''.'' + length w) g3 (?j + length ''.'' + length w) g3"
    by (rule sem_Eol) simp
  then have "sem (Seq (Group ''ext'' (Seq (Lit ''.'') (Star is_word))) Eol) ?p ?j g2
      (?j + length ''.'' + length w) g3"
    using e sem_Seq by blast
  then have "sem (Seq (Group ''name'' (Star ?nc))
      (Seq (Group ''ext'' (Seq (Lit ''.'') (Star is_word))) Eol)) ?p ?j g1
      (?j + length ''.'' + length w) g3"
    using n sem_Seq by blast
  then have "sem (Seq (Opt (Group ''origin'' (StarLazy ?nn))) (Seq (Group ''name'' (Star ?nc))
      (Seq (Group ''ext'' (Seq (Lit ''.'') (Star is_word))) Eol))) ?p 0 Map.empty
      (?j + length ''.'' + length w) g3"
    using o sem_Seq by blast
  then have "sem infile_pattern ?p 0 Map.empty (?j + length ''.'' + length w) g3"
    unfolding infile_pattern_def using sem_Bol sem_Seq by blast
  then have "matches infile_pattern ?p 0 Map.empty (\<lambda>j g. Some g) \<noteq> None"
    using matches_complete [of infile_pattern ?p 0 Map.empty _ g3 "\<lambda>j g. Some g"] by simp
  then show ?thesis unfolding re_match_def .
qed

lemma take_one_drop:
  assumes "take 1 (drop e p) = [c]"
  shows "e < length p \<and> p ! e = c"
proof (cases "e < length p")
  case True
  then have "drop e p = p ! e # drop (Suc e) p" by (rule Cons_nth_drop_Suc [symmetric])
  then show ?thesis using assms True by simp
next
  case False
  then show ?thesis using assms by simp
qed

lemma derive_outfile_groups:
  assumes "re_match infile_pattern p = Some g"
    and "g ''origin'' = Some outfile_location" and "g ''name'' = Some n"
  shows "derive_outfile p =
    Inr (n @ ''_texit_out.txt'', outfile_location @ n @ ''_texit_out.txt'')"
  by (simp add: derive_outfile_def assms)

text \<open>
  Where the file-name pattern matches, the output path is as expected: for a path
  without a newline that ends in a dot followed by word characters only, the output
  path is what precedes that dot followed by the suffix, in the same directory.
\<close>

lemma derive_outfile_word_extension:
  assumes "newline \<notin> set pre" and "\<forall>c \<in> set w. is_word c"
  shows "\<exists>n. derive_outfile (pre @ ''.'' @ w) = Inr (n, pre @ ''_texit_out.txt'')"
proof -
  let ?p = "pre @ ''.'' @ w"
  obtain g where g: "re_match infile_pattern ?p = Some g"
    using infile_pattern_matches [OF assms] by blast
  obtain j0 e0 where "g ''origin'' = Some (take j0 ?p)"
    "g ''name'' = Some (take (e0 - j0) (drop j0 ?p))"
    using infile_match_shape [OF g] by blast
  then obtain n outfile_path where d: "derive_outfile ?p = Inr (n, outfile_path)"
    using derive_outfile_groups [OF g] by blast
  obtain e f where s: "Suc e \<le> f" "take 1 (drop e ?p) = ''.''"
    "f - Suc e \<le> run_len is_word ?p (Suc e)"
    "f = length ?p \<or> (Suc f = length ?p \<and> ?p ! f = newline)"
    "outfile_path = take e ?p @ ''_texit_out.txt''"
    using derive_outfile_shape [OF d] by blast
  have len: "length ?p = length pre + 1 + length w" by simp
  have e_lt: "e < length ?p" and e_dot: "?p ! e = CHR ''.''"
    using take_one_drop [OF s(2)] by blast+
  have w_word: "is_word (?p ! i)" if "length pre < i" "i < length ?p" for i
  proof -
    have "?p ! i = w ! (i - length pre - 1)"
      using that by (simp add: nth_append)
    moreover have "i - length pre - 1 < length w" using that by simp
    ultimately show ?thesis using assms(2) by simp
  qed
  have f: "f = length ?p"
  proof (rule ccontr)
    assume "f \<noteq> length ?p"
    then have a: "Suc f = length ?p" "?p ! f = newline" using s(4) by auto
    show False
    proof (cases "w = []")
      case True
      then have "?p ! f = CHR ''.''" using a(1) by (simp add: nth_append)
      then show ?thesis using a(2) by (simp add: newline_def)
    next
      case False
      then have "length pre < f" "f < length ?p" using a(1) by auto
      then have "is_word (?p ! f)" by (rule w_word)
      then show ?thesis using a(2) not_word_newline by simp
    qed
  qed
  have after: "is_word (?p ! i)" if "Suc e \<le> i" "i < length ?p" for i
  proof -
    have "i - Suc e < run_len is_word ?p (Suc e)" using that s(3) f by simp
    then have "is_word (?p ! (Suc e + (i - Suc e)))" by (rule run_len_holds)
    then show ?thesis using that by simp
  qed
  have "e = length pre"
  proof (rule ccontr)
    assume ne: "e \<noteq> length pre"
    show False
    proof (cases "e < length pre")
      case True
      then have "is_word (?p ! length pre)" by (intro after) simp_all
      then show ?thesis using not_word_dot by (simp add: nth_append)
    next
      case False
      then have "length pre < e" using ne by simp
      then have "is_word (?p ! e)" using e_lt by (rule w_word)
      then show ?thesis using e_dot not_word_dot by simp
    qed
  qed
  then have "outfile_path = pre @ ''_texit_out.txt''" using s(5) by simp
  then show ?thesis using d by blast
qed

section \<open>The driver\<close>

lemma occurs_in_single: "occurs_in x [c] \<longleftrightarrow> x = [] \<or> x = [c]"
  by (cases x) auto

lemma overwrite_loop_empty:
  "overwrite_loop ([] # rest) out =
     (Some (Exit_message ''Nothing has changed, goodbye!''), rest,
      out @ [Prompt overwrite_question])"
  by (simp add: lower_def occurs_in_single del: occurs_in.simps)

lemma overwrite_loop_no:
  "lower r = ''n'' \<Longrightarrow> overwrite_loop (r # rest) out =
     (Some (Exit_message ''Nothing has changed, goodbye!''), rest,
      out @ [Prompt overwrite_question])"
  by (simp add: occurs_in_single del: occurs_in.simps)

lemma overwrite_loop_yes:
  "lower r = ''y'' \<Longrightarrow> overwrite_loop (r # rest) out =
     (None, rest, out @ [Prompt overwrite_question])"
  by (simp add: occurs_in_single del: occurs_in.simps)

lemma overwrite_loop_other:
  "lower r \<notin> {[], ''n'', ''y''} \<Longrightarrow> overwrite_loop (r # rest) out =
     overwrite_loop rest (out @ [Prompt overwrite_question, Print overwrite_help])"
  by (simp add: occurs_in_single del: occurs_in.simps)

lemma overwrite_loop_reprompts:
  assumes "\<forall>b \<in> set bad. lower b \<notin> {[], ''n'', ''y''}"
  shows "overwrite_loop (bad @ rs) out =
     overwrite_loop rs
       (out @ concat (map (\<lambda>b. [Prompt overwrite_question, Print overwrite_help]) bad))"
  using assms
proof (induction bad arbitrary: out)
  case Nil
  show ?case by simp
next
  case (Cons b bad)
  have "overwrite_loop ((b # bad) @ rs) out =
      overwrite_loop (bad @ rs) (out @ [Prompt overwrite_question, Print overwrite_help])"
    using Cons.prems overwrite_loop_other [of b "bad @ rs" out] by simp
  then show ?case using Cons.IH [of "out @ [Prompt overwrite_question, Print overwrite_help]"] Cons.prems
    by simp
qed

lemma main_writes:
  assumes "files w infile_name = Some content"
    and "derive_outfile infile_name = Inr (outfile_name, outfile_path)"
    and "outfile_path \<in> dom (files w) \<Longrightarrow>
           fst (overwrite_loop (stdin w)
             (stdout w @ [Print (''The output file `'' @ outfile_path @ ''` already exists'')]))
           = None"
  shows "\<exists>w' outs. main [prog, infile_name] w = (Returned, w') \<and>
           files w' = (files w)(outfile_path \<mapsto> written_text outs) \<and>
           list_all2 (\<lambda>l out. add_tex_syntax l = Inr out) (lines_of content) outs"
proof -
  have ne: "outfile_path \<noteq> infile_name"
    using outfile_is_not_infile [OF assms(2)] .
  have dom: "infile_name \<in> dom (files w)" using assms(1) by auto
  show ?thesis
  proof (cases "outfile_path \<in> dom (files w)")
    case False
    obtain outs where outs:
      "list_all2 (\<lambda>l out. add_tex_syntax l = Inr out) (lines_of content) outs"
      "write_output infile_name outfile_path w =
         (None, w\<lparr>files := (files w)(outfile_path \<mapsto> written_text outs)\<rparr>)"
      using write_output_text [OF ne assms(1)] unfolding written_text_def by blast
    have "main [prog, infile_name] w =
        (Returned, w\<lparr>files := (files w)(outfile_path \<mapsto> written_text outs),
           stdout := stdout w @ [Summary infile_name outfile_name outfile_path]\<rparr>)"
      using dom False assms(2) outs(2) by (simp add: main_def Let_def)
    then show ?thesis using outs(1) by auto
  next
    case True
    let ?out = "stdout w @ [Print (''The output file `'' @ outfile_path @ ''` already exists'')]"
    obtain rest out where loop: "overwrite_loop (stdin w) ?out = (None, rest, out)"
      using assms(3) [OF True] by (cases "overwrite_loop (stdin w) ?out") auto
    let ?w1 = "w\<lparr>stdin := rest, stdout := out\<rparr>"
    have f1: "files ?w1 infile_name = Some content" using assms(1) by simp
    obtain outs where outs:
      "list_all2 (\<lambda>l out. add_tex_syntax l = Inr out) (lines_of content) outs"
      "write_output infile_name outfile_path ?w1 =
         (None, ?w1\<lparr>files := (files ?w1)(outfile_path \<mapsto> written_text outs)\<rparr>)"
      using write_output_text [OF ne f1] unfolding written_text_def by blast
    have "main [prog, infile_name] w =
        (Returned, ?w1\<lparr>files := (files ?w1)(outfile_path \<mapsto> written_text outs),
           stdout := out @ [Print ''Overwrite successful!'',
             Summary infile_name outfile_name outfile_path]\<rparr>)"
      using dom True assms(2) outs(2) loop by (simp add: main_def Let_def)
    then show ?thesis using outs(1) by auto
  qed
qed

text \<open>
  Claim C8. The driver is run on an input file that exists and whose name the file-name
  pattern matches, and the output file either does not exist yet or the user, after
  any number of answers that are re-asked, answers \<^verbatim>\<open>y\<close> (in either case). Then the
  driver returns, and the output file holds the delimiter \<^verbatim>\<open>$$\<close> and a newline, then
  for each line of the input, in order, its transformed line and a newline, then the
  delimiter and a newline: for an input of \<open>N\<close> lines the output has \<open>N + 2\<close> lines, the
  first and the last being the delimiter.
\<close>

theorem end_to_end_lines:
  assumes "files w infile_name = Some content"
    and "derive_outfile infile_name = Inr (outfile_name, outfile_path)"
    and "outfile_path \<notin> dom (files w) \<or>
         (\<exists>bad r rest. stdin w = bad @ r # rest \<and>
            (\<forall>b \<in> set bad. lower b \<notin> {[], ''n'', ''y''}) \<and> lower r = ''y'')"
  shows "\<exists>w' written outs.
           main [prog, infile_name] w = (Returned, w') \<and>
           files w' outfile_path = Some written \<and>
           list_all2 (\<lambda>l out. add_tex_syntax l = Inr out) (lines_of content) outs \<and>
           written = common_tex_dollars @ [newline] @
             concat (map (\<lambda>out. out @ [newline]) outs) @ common_tex_dollars @ [newline] \<and>
           lines_of written = common_tex_dollars # outs @ [common_tex_dollars] \<and>
           length (lines_of written) = length (lines_of content) + 2"
proof -
  have prompt: "fst (overwrite_loop (stdin w) out) = None"
    if ex: "outfile_path \<in> dom (files w)" for out
  proof -
    obtain bad r rest where s: "stdin w = bad @ r # rest"
      "\<forall>b \<in> set bad. lower b \<notin> {[], ''n'', ''y''}" "lower r = ''y''"
      using assms(3) ex by blast
    show ?thesis
      using overwrite_loop_reprompts [OF s(2), of "r # rest" out] overwrite_loop_yes [OF s(3)]
      by (simp add: s(1))
  qed
  obtain w' outs where m: "main [prog, infile_name] w = (Returned, w')"
    "files w' = (files w)(outfile_path \<mapsto> written_text outs)"
    "list_all2 (\<lambda>l out. add_tex_syntax l = Inr out) (lines_of content) outs"
    using main_writes [OF assms(1,2) prompt] by blast
  have l: "lines_of (written_text outs) = common_tex_dollars # outs @ [common_tex_dollars]"
    unfolding written_text_def by (rule lines_of_written [OF m(3)])
  have "length outs = length (lines_of content)"
    using m(3) by (simp add: list_all2_lengthD)
  then have "length (lines_of (written_text outs)) = length (lines_of content) + 2"
    using l by simp
  moreover have "files w' outfile_path = Some (written_text outs)" using m(2) by simp
  ultimately show ?thesis
    using m(1,3) l unfolding written_text_def by blast
qed

text \<open>
  The parts of the prompt that hold on every input: an answer that is not empty and is
  neither \<^verbatim>\<open>y\<close> nor \<^verbatim>\<open>n\<close> in either case is asked again
  (\<open>overwrite_loop_reprompts\<close>), and after \<^verbatim>\<open>n\<close> the driver stops with no file
  changed.
\<close>

lemma main_declined:
  assumes "files w infile_name = Some content"
    and "derive_outfile infile_name = Inr (outfile_name, outfile_path)"
    and "outfile_path \<in> dom (files w)"
    and "stdin w = bad @ r # rest"
    and "\<forall>b \<in> set bad. lower b \<notin> {[], ''n'', ''y''}"
    and "lower r = ''n''"
  shows "\<exists>w'. main [prog, infile_name] w = (Exit_message ''Nothing has changed, goodbye!'', w') \<and>
           files w' = files w"
proof -
  let ?out = "stdout w @ [Print (''The output file `'' @ outfile_path @ ''` already exists'')]"
  let ?out' = "?out @ concat (map (\<lambda>b. [Prompt overwrite_question, Print overwrite_help]) bad)"
  have "overwrite_loop (stdin w) ?out =
      (Some (Exit_message ''Nothing has changed, goodbye!''), rest,
       ?out' @ [Prompt overwrite_question])"
    using overwrite_loop_reprompts [OF assms(5), of "r # rest" ?out]
      overwrite_loop_no [OF assms(6), of rest ?out']
    by (simp only: assms(4))
  moreover have "infile_name \<in> dom (files w)" using assms(1) by auto
  ultimately have "main [prog, infile_name] w =
      (Exit_message ''Nothing has changed, goodbye!'',
       w\<lparr>stdin := rest, stdout := ?out' @ [Prompt overwrite_question]\<rparr>)"
    using assms(2,3) by (simp add: main_def Let_def)
  then show ?thesis by simp
qed

lemma derive_notes: "derive_outfile ''notes.txt'' = Inr (''notes_texit_out.txt'', ''notes_texit_out.txt'')"
  by (simp add: derive_outfile_def re_match_def infile_pattern_def run_len_def newline_def is_word_def)

lemma derive_abs: "derive_outfile ''/a/b/notes.txt'' = Inr (''notes_texit_out.txt'', ''/a/b/notes_texit_out.txt'')"
  by (simp add: derive_outfile_def re_match_def infile_pattern_def run_len_def newline_def is_word_def)

lemma derive_cpp: "derive_outfile ''/a/b/prog.c++'' = Inl AttributeError"
  by (simp add: derive_outfile_def re_match_def infile_pattern_def run_len_def newline_def is_word_def)

text \<open>
  Claim C8 on an input of two lines, \<^verbatim>\<open>-br\<close> and \<^verbatim>\<open>hi\<close>, with no output file yet:
  the output has four lines.
\<close>

theorem end_to_end_lines_witness:
  "\<exists>w' written.
     main [''texit.py'', ''notes.txt'']
       \<lparr>files = [''notes.txt'' \<mapsto> ''-br'' @ [newline] @ ''hi''], stdin = [], stdout = []\<rparr>
       = (Returned, w') \<and>
     files w' ''notes_texit_out.txt'' = Some written \<and>
     lines_of written =
       [''$$'', ''$$$$'', common_large_txt @ ''hi}'' @ common_end_slash, ''$$''] \<and>
     length (lines_of written) = length (lines_of (''-br'' @ [newline] @ ''hi'')) + 2"
proof -
  let ?w = "\<lparr>files = [''notes.txt'' \<mapsto> ''-br'' @ [newline] @ ''hi''], stdin = [], stdout = []\<rparr>"
  have f: "files ?w ''notes.txt'' = Some (''-br'' @ [newline] @ ''hi'')" by simp
  have o: "''notes_texit_out.txt'' \<notin> dom (files ?w) \<or>
         (\<exists>bad r rest. stdin ?w = bad @ r # rest \<and>
            (\<forall>b \<in> set bad. lower b \<notin> {[], ''n'', ''y''}) \<and> lower r = ''y'')"
    by simp
  have l: "lines_of (''-br'' @ [newline] @ ''hi'') = [''-br'', ''hi'']"
    by (simp add: newline_def)
  have a: "add_tex_syntax ''-br'' = Inr ''$$$$''"
    by (simp add: add_tex_syntax_def re_match_def PATTERN_def possible_starts_def starts_def
      mapping_def rest_of_string_def run_len_def newline_def getitem_def)
  have b: "add_tex_syntax ''hi'' = Inr (common_large_txt @ ''hi}'' @ common_end_slash)"
    by (simp add: add_tex_syntax_def re_match_def PATTERN_def possible_starts_def starts_def
      mapping_def rest_of_string_def run_len_def newline_def brace_close_def)
  obtain w' written outs where r:
    "main [''texit.py'', ''notes.txt''] ?w = (Returned, w')"
    "files w' ''notes_texit_out.txt'' = Some written"
    "list_all2 (\<lambda>l out. add_tex_syntax l = Inr out) (lines_of (''-br'' @ [newline] @ ''hi'')) outs"
    "lines_of written = common_tex_dollars # outs @ [common_tex_dollars]"
    "length (lines_of written) = length (lines_of (''-br'' @ [newline] @ ''hi'')) + 2"
    using end_to_end_lines [OF f derive_notes o, of "''texit.py''"] by blast
  have "outs = [''$$$$'', common_large_txt @ ''hi}'' @ common_end_slash]"
    using r(3) a b unfolding l by (auto simp: list_all2_Cons1)
  then have "lines_of written =
       [''$$'', ''$$$$'', common_large_txt @ ''hi}'' @ common_end_slash, ''$$'']"
    using r(4) by (simp add: common_tex_dollars_def)
  then show ?thesis using r(1,2,5) by blast
qed

text \<open>
  Claim C4 at the input where the code departs from it. The output file exists and the
  user gives the empty answer (presses Enter). The test \<^verbatim>\<open>in 'n'\<close> of the source is a
  substring test, which the empty string passes, so the driver stops with the message
  of a refusal and leaves the files as they were, and the answer \<^verbatim>\<open>y\<close> that follows is
  never read. The claim asks for a second prompt here.
\<close>

theorem empty_response_exits:
  "main [''texit.py'', ''notes.txt'']
     \<lparr>files = [''notes.txt'' \<mapsto> ''hello'', ''notes_texit_out.txt'' \<mapsto> ''old''],
      stdin = ['''', ''y''], stdout = []\<rparr> =
   (Exit_message ''Nothing has changed, goodbye!'',
     \<lparr>files = [''notes.txt'' \<mapsto> ''hello'', ''notes_texit_out.txt'' \<mapsto> ''old''],
      stdin = [''y''],
      stdout = [Print ''The output file `notes_texit_out.txt` already exists'',
                Prompt overwrite_question]\<rparr>)"
  by (simp add: main_def derive_notes Let_def lower_def)

text \<open>
  Claim C10 at the input where the code departs from it. For the path
  \<^verbatim>\<open>/a/b/prog.c++\<close> (directory \<^verbatim>\<open>/a/b/\<close>, base name \<^verbatim>\<open>prog\<close>, extension
  \<^verbatim>\<open>.c++\<close>) the file-name pattern does not match, since it wants word characters
  after the last dot, and the source reads the groups of the missing match: the driver
  raises AttributeError and derives no output path.
\<close>

theorem unmatched_extension_raises:
  "derive_outfile ''/a/b/prog.c++'' = Inl AttributeError \<and>
   main [''texit.py'', ''/a/b/prog.c++'']
     \<lparr>files = [''/a/b/prog.c++'' \<mapsto> ''hello''], stdin = [], stdout = []\<rparr> =
   (Raised AttributeError,
     \<lparr>files = [''/a/b/prog.c++'' \<mapsto> ''hello''], stdin = [], stdout = []\<rparr>)"
  by (simp add: main_def derive_cpp Let_def)

end
